theory Spec2Isabelle
  imports Main "HOL-Library.Word" "HOL-Library.Signed_Division"
begin

unbundle bit_operations_syntax

section \<open>The streaming firmware: data model\<close>

text \<open>
  The development embeds \<^verbatim>\<open>Firmware-idf/src/main.c\<close>: the two producers
  \<^verbatim>\<open>QI2Smsg\<close> and \<^verbatim>\<open>QADCmsg\<close> with the loop bodies of their tasks, the outbound queue,
  and the delivery path \<^verbatim>\<open>send_msg\<close> with the loop body of \<^verbatim>\<open>OutBoundTask\<close>.

  C \<^verbatim>\<open>int\<close> values are modelled as \<open>int\<close>: no arithmetic of the modelled functions leaves
  the 32-bit range on the inputs considered, and the conversions to the unsigned fields
  (\<^verbatim>\<open>uint16_t length\<close>, \<^verbatim>\<open>size_t end\<close>, 32 bits on the target) are written out with
  \<open>word_of_int\<close>, which reduces modulo the width as the C conversion does. Division of
  \<^verbatim>\<open>int\<close> is C's truncating division \<open>sdiv\<close>.
\<close>

definition MIC_BUFFER_SIZE :: int where
  "MIC_BUFFER_SIZE = 256"

definition ADC_BUFFER_SIZE :: int where
  "ADC_BUFFER_SIZE = 256"

definition SOURCE_MIC :: "8 word" where
  "SOURCE_MIC = 0"

definition SOURCE_ADC :: "8 word" where
  "SOURCE_ADC = 1"

text \<open>
  \<^verbatim>\<open>packet_header_t\<close>, \<^verbatim>\<open>buffer_t\<close> and \<^verbatim>\<open>msg_t\<close>. The fields \<^verbatim>\<open>length\<close> and \<^verbatim>\<open>end\<close> carry the
  suffix \<open>_f\<close> because their names are taken in HOL.
\<close>

record packet_header_t =
  source :: "8 word"
  metadata :: "8 word"
  length_f :: "16 word"
  timestamp :: "64 word"

record buffer_t =
  data :: "16 word list"
  end_f :: "32 word"

record msg_t =
  header :: packet_header_t
  buffer :: buffer_t

text \<open>The number of entries of \<^verbatim>\<open>buffer_t.data\<close>: \<^verbatim>\<open>MAX(MIC_BUFFER_SIZE, ADC_BUFFER_SIZE)\<close>.\<close>

definition DATA_LEN :: nat where
  "DATA_LEN = nat (max MIC_BUFFER_SIZE ADC_BUFFER_SIZE)"

text \<open>
  The shared state: the global \<^verbatim>\<open>client_socket\<close> (negative when no client is connected),
  the function-static counter \<^verbatim>\<open>errors\<close> of \<^verbatim>\<open>send_msg\<close>, the contents of \<^verbatim>\<open>outbound_queue\<close>
  (head = oldest message), and a log \<open>sent\<close> of the byte buffers handed to \<^verbatim>\<open>send\<close>, one
  entry per call, oldest first.
\<close>

record sys =
  client_socket :: int
  errors :: int
  outbound_queue :: "msg_t list"
  sent :: "8 word list list"

text \<open>
  Ways in which a call does not return normally: a failed \<^verbatim>\<open>assert\<close> (which aborts the
  firmware), a memory access outside the object it addresses, and a task suspended in a
  blocking queue operation.
\<close>

datatype stop = AssertFailed | OutOfBounds | Blocked

section \<open>The outbound queue\<close>

text \<open>
  \<^verbatim>\<open>outbound_queue = xQueueCreate(256, sizeof(msg_t))\<close>; \<^verbatim>\<open>xQueueSend\<close> with
  \<^verbatim>\<open>portMAX_DELAY\<close> copies the message to the back of the queue, and suspends the caller
  while the queue holds 256 messages.
\<close>

definition QUEUE_LENGTH :: nat where
  "QUEUE_LENGTH = 256"

definition xQueueSend :: "sys \<Rightarrow> msg_t \<Rightarrow> stop + sys" where
  "xQueueSend s m =
     (if length (outbound_queue s) < QUEUE_LENGTH
      then Inr (s\<lparr>outbound_queue := outbound_queue s @ [m]\<rparr>)
      else Inl Blocked)"

section \<open>The microphone producer\<close>

text \<open>
  The copy loop of \<^verbatim>\<open>QI2Smsg\<close> (\<^verbatim>\<open>skipFirst\<close> is the constant 1):
  \<^verbatim>\<open>for (int j = 0; j < num_samples; j++) sample.buffer.data[j] = buffer[2 * j + skipFirst];\<close>
  The argument \<open>d\<close> is the array \<^verbatim>\<open>sample.buffer.data\<close>. A read outside \<open>buf\<close> or a write
  outside the array stops with \<open>OutOfBounds\<close>.
\<close>

function QI2S_loop :: "16 word list \<Rightarrow> int \<Rightarrow> int \<Rightarrow> 16 word list \<Rightarrow> stop + 16 word list" where
  "QI2S_loop buf num_samples j d =
     (if j < num_samples
      then (if 0 \<le> j \<and> nat (2 * j + 1) < length buf \<and> nat j < length d
            then QI2S_loop buf num_samples (j + 1) (d[nat j := buf ! nat (2 * j + 1)])
            else Inl OutOfBounds)
      else Inr d)"
  by pat_completeness auto
termination
  by (relation "measure (\<lambda>(buf, num_samples, j, d). nat (num_samples - j))") auto

declare QI2S_loop.simps [simp del]

text \<open>
  \<^verbatim>\<open>QI2Smsg(int16_t *buffer, int size)\<close>. The local \<^verbatim>\<open>msg_t sample\<close> is not initialised:
  \<open>stack\<close> gives the indeterminate initial content of its data array, entry by entry.
  \<open>now\<close> is the value returned by \<^verbatim>\<open>esp_timer_get_time()\<close>, and \<open>size_p\<close> the parameter
  \<^verbatim>\<open>size\<close>.
\<close>

definition QI2Smsg :: "sys \<Rightarrow> 64 word \<Rightarrow> (nat \<Rightarrow> 16 word) \<Rightarrow> 16 word list \<Rightarrow> int \<Rightarrow> stop + sys" where
  "QI2Smsg s now stack buf size_p =
     (if client_socket s < 0 then Inr s
      else
        let num_samples = size_p sdiv 2 in
        if \<not> num_samples \<le> MIC_BUFFER_SIZE then Inl AssertFailed
        else
          (case QI2S_loop buf num_samples 0 (map stack [0..<DATA_LEN]) of
             Inl e \<Rightarrow> Inl e
           | Inr d \<Rightarrow>
               xQueueSend s
                 \<lparr>header = \<lparr>source = SOURCE_MIC, metadata = 0,
                            length_f = word_of_int num_samples, timestamp = now\<rparr>,
                  buffer = \<lparr>data = d, end_f = word_of_int num_samples\<rparr>\<rparr>))"

text \<open>
  One iteration of the loop of \<^verbatim>\<open>mic_task\<close>: \<open>ok\<close> is \<^verbatim>\<open>ret == ESP_OK\<close>, \<open>bytes_read\<close> the
  \<^verbatim>\<open>size_t\<close> count stored by \<^verbatim>\<open>i2s_channel_read\<close>, which was asked for
  \<^verbatim>\<open>sizeof(i2s_read_buf)\<close> bytes.
\<close>

definition i2s_read_buf_bytes :: nat where
  "i2s_read_buf_bytes = nat (MIC_BUFFER_SIZE * 2) * 2"

definition mic_task_step ::
  "sys \<Rightarrow> 64 word \<Rightarrow> (nat \<Rightarrow> 16 word) \<Rightarrow> bool \<Rightarrow> 32 word \<Rightarrow> 16 word list \<Rightarrow> stop + sys" where
  "mic_task_step s now stack ok bytes_read i2s_read_buf =
     (if ok \<and> bytes_read > 0
      then let samples = uint (bytes_read div 2) in QI2Smsg s now stack i2s_read_buf samples
      else Inr s)"

section \<open>The analog producer\<close>

text \<open>
  Modelled from the spec: the type \<^verbatim>\<open>adc_digi_output_data_t\<close> of the SDK headers. A
  conversion record carries a \<open>channel\<close> and a \<open>data\<close> value; it is represented by these two
  bit-fields, the ones the code reads, each converted to \<^verbatim>\<open>uint32_t\<close> as in
  \<^verbatim>\<open>uint32_t chan = p->type2.channel\<close>. The byte buffer of \<^verbatim>\<open>QADCmsg\<close> is the list of the
  records it holds, addressed in steps of \<^verbatim>\<open>SOC_ADC_DIGI_RESULT_BYTES\<close>.
\<close>

record adc_digi_output_data_t =
  type2_channel :: "32 word"
  type2_data :: "32 word"

text \<open>
  Modelled from the spec: the macro \<^verbatim>\<open>SOC_ADC_DIGI_RESULT_BYTES\<close> of the SDK headers, the
  "fixed per-conversion encoding size, e.g. 4 bytes" (the comment in \<^verbatim>\<open>QADCmsg\<close> says
  "likely 4 bytes for TYPE2").
\<close>

definition SOC_ADC_DIGI_RESULT_BYTES :: int where
  "SOC_ADC_DIGI_RESULT_BYTES = 4"

text \<open>
  \<^verbatim>\<open>sample.buffer.data[i] = ((chan & 0xF) << 12) | (data & 0x0FFF);\<close>
  The right-hand side is a \<^verbatim>\<open>uint32_t\<close>; the assignment to \<^verbatim>\<open>int16_t\<close> keeps its low 16 bits.
\<close>

definition adc_pack :: "32 word \<Rightarrow> 32 word \<Rightarrow> 16 word" where
  "adc_pack chan dat = ucast (push_bit 12 (chan AND 0xF) OR (dat AND 0x0FFF))"

function QADC_loop ::
  "adc_digi_output_data_t list \<Rightarrow> int \<Rightarrow> int \<Rightarrow> 16 word list \<Rightarrow> stop + 16 word list" where
  "QADC_loop buf num_conv i d =
     (if i < num_conv
      then (if 0 \<le> i \<and> nat i < length buf \<and> nat i < length d
            then let p = buf ! nat i;
                     chan = type2_channel p;
                     dat = type2_data p
                 in QADC_loop buf num_conv (i + 1) (d[nat i := adc_pack chan dat])
            else Inl OutOfBounds)
      else Inr d)"
  by pat_completeness auto
termination
  by (relation "measure (\<lambda>(buf, num_conv, i, d). nat (num_conv - i))") auto

declare QADC_loop.simps [simp del]

definition QADCmsg ::
  "sys \<Rightarrow> 64 word \<Rightarrow> (nat \<Rightarrow> 16 word) \<Rightarrow> adc_digi_output_data_t list \<Rightarrow> int \<Rightarrow> stop + sys" where
  "QADCmsg s now stack buf size_p =
     (if client_socket s < 0 then Inr s
      else
        let num_conv = size_p sdiv SOC_ADC_DIGI_RESULT_BYTES in
        if \<not> num_conv \<le> ADC_BUFFER_SIZE then Inl AssertFailed
        else
          (case QADC_loop buf num_conv 0 (map stack [0..<DATA_LEN]) of
             Inl e \<Rightarrow> Inl e
           | Inr d \<Rightarrow>
               xQueueSend s
                 \<lparr>header = \<lparr>source = SOURCE_ADC, metadata = 0,
                            length_f = word_of_int num_conv, timestamp = now\<rparr>,
                  buffer = \<lparr>data = d, end_f = word_of_int num_conv\<rparr>\<rparr>))"

text \<open>
  One iteration of the loop of \<^verbatim>\<open>adc_task\<close>: \<open>adc_bytes_read\<close> is the \<^verbatim>\<open>uint32_t\<close> count
  stored by \<^verbatim>\<open>adc_continuous_read\<close>, which was asked for \<^verbatim>\<open>sizeof(adc_dma_buf)\<close> bytes; it is
  passed for the \<^verbatim>\<open>int\<close> parameter \<^verbatim>\<open>size\<close>.
\<close>

definition adc_dma_buf_bytes :: nat where
  "adc_dma_buf_bytes = nat (ADC_BUFFER_SIZE * SOC_ADC_DIGI_RESULT_BYTES)"

definition adc_task_step ::
  "sys \<Rightarrow> 64 word \<Rightarrow> (nat \<Rightarrow> 16 word) \<Rightarrow> bool \<Rightarrow> 32 word \<Rightarrow> adc_digi_output_data_t list
     \<Rightarrow> stop + sys" where
  "adc_task_step s now stack ok adc_bytes_read adc_dma_buf =
     (if ok \<and> adc_bytes_read > 0
      then QADCmsg s now stack adc_dma_buf (sint adc_bytes_read)
      else Inr s)"

section \<open>Delivery\<close>

text \<open>
  The bytes of an object in memory. The structs are packed, so the fields follow each other
  without padding; the targets of the firmware are little-endian, so the least significant
  byte of a field comes first. \<open>le_bytes n w\<close> gives the \<open>n\<close> low bytes of \<open>w\<close>.
\<close>

primrec le_bytes :: "nat \<Rightarrow> 'a::len word \<Rightarrow> 8 word list" where
  "le_bytes 0 w = []"
| "le_bytes (Suc n) w = ucast w # le_bytes n (drop_bit 8 w)"

definition header_bytes :: "packet_header_t \<Rightarrow> 8 word list" where
  "header_bytes h =
     [source h, metadata h] @ le_bytes 2 (length_f h) @ le_bytes 8 (timestamp h)"

definition buffer_bytes :: "buffer_t \<Rightarrow> 8 word list" where
  "buffer_bytes b = concat (map (le_bytes 2) (data b)) @ le_bytes 4 (end_f b)"

text \<open>
  \<^verbatim>\<open>sizeof(packet_header_t)\<close>, the sum of the sizes of the four fields of the packed struct,
  and \<^verbatim>\<open>sizeof(int16_t)\<close>, a \<^verbatim>\<open>size_t\<close>.
\<close>

definition sizeof_packet_header_t :: nat where
  "sizeof_packet_header_t = 1 + 1 + 2 + 8"

definition sizeof_int16_t :: "32 word" where
  "sizeof_int16_t = 2"

text \<open>
  \<^verbatim>\<open>send(client_socket, p, len, 0)\<close>: the network decides the return value; \<open>net k\<close> is
  the value returned by the \<open>k\<close>-th call of \<^verbatim>\<open>send\<close> since start-up (counted from 0).
  The call is logged whatever it returns. \<open>obj\<close> is the object at \<open>p\<close>; a length beyond
  its size reads outside of it.
\<close>

definition send :: "(nat \<Rightarrow> int) \<Rightarrow> sys \<Rightarrow> 8 word list \<Rightarrow> nat \<Rightarrow> stop + (int \<times> sys)" where
  "send net s obj len =
     (if len \<le> length obj
      then Inr (net (length (sent s)), s\<lparr>sent := sent s @ [take len obj]\<rparr>)
      else Inl OutOfBounds)"

text \<open>
  The failure branch that \<^verbatim>\<open>send_msg\<close> has after each of its two writes:
  \<^verbatim>\<open>if (errors++ > 10) { close(client_socket); client_socket = -1; ... } ... return;\<close>
  The comparison reads the counter before the increment.
\<close>

definition send_failed :: "sys \<Rightarrow> sys" where
  "send_failed s =
     (let old = errors s;
          s1 = s\<lparr>errors := old + 1\<rparr>
      in if old > 10 then s1\<lparr>client_socket := - 1\<rparr> else s1)"

definition send_msg :: "(nat \<Rightarrow> int) \<Rightarrow> sys \<Rightarrow> msg_t \<Rightarrow> stop + sys" where
  "send_msg net s msg =
     (if client_socket s < 0 then Inr s
      else
        (case send net s (header_bytes (header msg)) sizeof_packet_header_t of
           Inl e \<Rightarrow> Inl e
         | Inr (ret, s1) \<Rightarrow>
             if ret < 0 then Inr (send_failed s1)
             else
               (case send net s1 (buffer_bytes (buffer msg))
                       (unat (end_f (buffer msg) * sizeof_int16_t)) of
                  Inl e \<Rightarrow> Inl e
                | Inr (ret2, s2) \<Rightarrow>
                    if ret2 < 0 then Inr (send_failed s2)
                    else Inr (s2\<lparr>errors := 0\<rparr>))))"

text \<open>
  One iteration of the loop of \<^verbatim>\<open>OutBoundTask\<close>: \<^verbatim>\<open>xQueueReceive\<close> with \<^verbatim>\<open>portMAX_DELAY\<close>
  removes the oldest message, suspending the task while the queue is empty, and the
  message goes to \<^verbatim>\<open>send_msg\<close>.
\<close>

definition OutBoundTask_step :: "(nat \<Rightarrow> int) \<Rightarrow> sys \<Rightarrow> stop + sys" where
  "OutBoundTask_step net s =
     (case outbound_queue s of
        [] \<Rightarrow> Inl Blocked
      | sample # rest \<Rightarrow> send_msg net (s\<lparr>outbound_queue := rest\<rparr>) sample)"

text \<open>\<^verbatim>\<open>send_msg\<close> called for each message of a list in turn, as the task does.\<close>

fun send_msgs :: "(nat \<Rightarrow> int) \<Rightarrow> sys \<Rightarrow> msg_t list \<Rightarrow> stop + sys" where
  "send_msgs net s [] = Inr s"
| "send_msgs net s (m # ms) =
     (case send_msg net s m of Inl e \<Rightarrow> Inl e | Inr s1 \<Rightarrow> send_msgs net s1 ms)"

section \<open>The receiving side\<close>

text \<open>
  Modelled from the spec: the decoder of the wire format, which belongs to the client
  software of the repository. The spec's Frame has \<open>source\<close> in \<open>{Audio, Adc}\<close>, an 8-bit
  \<open>metadata\<close>, an unsigned 16-bit \<open>sampleCount\<close>, an unsigned 64-bit \<open>timestamp\<close> and a
  payload of 16-bit samples. On the wire: "Header, 12 bytes, fixed layout: source (1 byte:
  0=Audio, 1=Adc), metadata (1 byte, reserved, value 0), sampleCount (2 bytes, count of
  16-bit samples), timestamp (8 bytes)", then "Payload: sampleCount * 2 bytes, signed
  16-bit samples in the same fixed byte order, no terminator". The byte order is the
  sender's, little-endian.
\<close>

datatype source_t = Audio | Adc

record Frame =
  frame_source :: source_t
  frame_metadata :: "8 word"
  sampleCount :: "16 word"
  frame_timestamp :: "64 word"
  payload :: "16 word list"

primrec le_word :: "8 word list \<Rightarrow> 'a::len word" where
  "le_word [] = 0"
| "le_word (b # bs) = ucast b OR push_bit 8 (le_word bs)"

fun samples_of :: "8 word list \<Rightarrow> 16 word list" where
  "samples_of (b0 # b1 # bs) = le_word [b0, b1] # samples_of bs"
| "samples_of bs = []"

definition decode_source :: "8 word \<Rightarrow> source_t option" where
  "decode_source b = (if b = 0 then Some Audio else if b = 1 then Some Adc else None)"

definition decode_frame :: "8 word list \<Rightarrow> Frame option" where
  "decode_frame bs =
     (if length bs < 12 then None
      else
        (case decode_source (bs ! 0) of
           None \<Rightarrow> None
         | Some src \<Rightarrow>
             let n = le_word (take 2 (drop 2 bs));
                 body = drop 12 bs
             in if length body \<noteq> unat n * 2 then None
                else Some \<lparr>frame_source = src, frame_metadata = bs ! 1, sampleCount = n,
                           frame_timestamp = le_word (take 8 (drop 4 bs)),
                           payload = samples_of body\<rparr>))"

text \<open>
  The Frame that a message of the firmware stands for: the header fields, and the first
  \<^verbatim>\<open>length\<close> entries of the data array.
\<close>

definition frame_of_msg :: "msg_t \<Rightarrow> Frame" where
  "frame_of_msg m =
     \<lparr>frame_source = (if source (header m) = SOURCE_MIC then Audio else Adc),
      frame_metadata = metadata (header m),
      sampleCount = length_f (header m),
      frame_timestamp = timestamp (header m),
      payload = take (unat (length_f (header m))) (data (buffer m))\<rparr>"

section \<open>The invariant of a message\<close>

text \<open>
  What the firmware's documentation says of a packet: \<open>source\<close> is 0 for the microphone and 1
  for the ADC, \<open>metadata\<close> is 0, \<open>length\<close> is the number of samples in the packet and
  \<open>end\<close> "indicates how many samples have been stored", within the data array.
\<close>

definition frame_ok :: "msg_t \<Rightarrow> bool" where
  "frame_ok m \<longleftrightarrow>
     (source (header m) = SOURCE_MIC \<or> source (header m) = SOURCE_ADC) \<and>
     metadata (header m) = 0 \<and>
     unat (length_f (header m)) \<le> DATA_LEN \<and>
     unat (end_f (buffer m)) = unat (length_f (header m)) \<and>
     length (data (buffer m)) = DATA_LEN"

section \<open>Example values\<close>

definition connected_sys :: sys where
  "connected_sys = \<lparr>client_socket = 3, errors = 0, outbound_queue = [], sent = []\<rparr>"

definition idle_sys :: sys where
  "idle_sys = \<lparr>client_socket = - 1, errors = 0, outbound_queue = [], sent = []\<rparr>"

definition all_writes_fail :: "nat \<Rightarrow> int" where
  "all_writes_fail k = - 1"

definition all_writes_pass :: "nat \<Rightarrow> int" where
  "all_writes_pass k = 1"

definition zero_stack :: "nat \<Rightarrow> 16 word" where
  "zero_stack k = 0"

definition empty_frame :: msg_t where
  "empty_frame =
     \<lparr>header = \<lparr>source = SOURCE_MIC, metadata = 0, length_f = 0, timestamp = 0\<rparr>,
      buffer = \<lparr>data = replicate DATA_LEN 0, end_f = 0\<rparr>\<rparr>"

definition adc_frame :: msg_t where
  "adc_frame =
     \<lparr>header = \<lparr>source = SOURCE_ADC, metadata = 0, length_f = 2,
                timestamp = 0x0102030405060708\<rparr>,
      buffer = \<lparr>data = [0x2ABC, 0x1234] @ replicate 254 0, end_f = 2\<rparr>\<rparr>"

section \<open>Bytes and words\<close>

lemma length_le_bytes: "length (le_bytes n w) = n"
  by (induction n arbitrary: w) simp_all

lemma length_header_bytes: "length (header_bytes h) = 12"
  by (simp add: header_bytes_def length_le_bytes)

lemma le_bytes_2: "le_bytes 2 w = [ucast w, ucast (drop_bit 8 w)]"
  by (simp add: numeral_2_eq_2)

lemma le_word_le_bytes: "le_word (le_bytes n w) = take_bit (8 * n) w"
proof (induction n arbitrary: w)
  case 0
  show ?case by simp
next
  case (Suc n)
  have "ucast (ucast w :: 8 word) OR push_bit 8 (take_bit (8 * n) (drop_bit 8 w))
          = take_bit (8 * Suc n) w"
    by (rule bit_word_eqI) (auto simp: bit_simps)
  with Suc show ?case by simp
qed

lemma le_word_le_bytes_2: "le_word (le_bytes 2 (w :: 16 word)) = w"
  by (simp add: le_word_le_bytes take_bit_word_eq_self)

lemma le_word_le_bytes_8: "le_word (le_bytes 8 (w :: 64 word)) = w"
  by (simp add: le_word_le_bytes take_bit_word_eq_self)

lemma samples_of_concat: "samples_of (concat (map (le_bytes 2) xs)) = xs"
proof (induction xs)
  case Nil
  show ?case by simp
next
  case (Cons x xs)
  have "le_word [ucast x, ucast (drop_bit 8 x)] = x"
    using le_word_le_bytes_2 [of x] by (simp only: le_bytes_2)
  with Cons show ?case by (simp add: le_bytes_2 del: le_word.simps)
qed

lemma take_concat_le_bytes_2:
  "take (2 * n) (concat (map (le_bytes 2) xs)) = concat (map (le_bytes 2) (take n xs))"
proof (induction xs arbitrary: n)
  case Nil
  show ?case by simp
next
  case (Cons x xs)
  show ?case
  proof (cases n)
    case 0
    then show ?thesis by simp
  next
    case (Suc k)
    with Cons [of k] show ?thesis by (simp add: le_bytes_2)
  qed
qed

lemma length_concat_le_bytes_2: "length (concat (map (le_bytes 2) xs)) = 2 * length xs"
  by (induction xs) (simp_all add: length_le_bytes)

lemma unat_twice: "unat (e :: 32 word) \<le> 256 \<Longrightarrow> unat (e * 2) = 2 * unat e"
  by (simp add: unat_word_ariths)

lemma adc_pack_take_bit:
  "take_bit 16 (push_bit 12 (take_bit 4 chan) OR take_bit 12 dat)
     = (push_bit 12 (take_bit 4 chan) OR take_bit 12 dat :: 32 word)"
  by (rule bit_word_eqI) (auto simp: bit_simps)

lemma take_bit_16_bound: "take_bit 16 (x :: 32 word) = x \<Longrightarrow> unat x < 2 ^ 16"
  by (metis take_bit_nat_eq_self_iff unsigned_take_bit_eq)

lemma adc_pack_unat:
  "unat (adc_pack chan dat) = unat (push_bit 12 (chan AND 0xF) OR (dat AND 0x0FFF))"
proof -
  let ?x = "push_bit 12 (chan AND 0xF) OR (dat AND 0x0FFF)"
  have m4: "(0xF :: 32 word) = mask 4" and m12: "(0x0FFF :: 32 word) = mask 12"
    by (simp_all add: mask_eq_exp_minus_1)
  have "take_bit 16 ?x = ?x"
    unfolding m4 m12 take_bit_eq_mask [symmetric] by (rule adc_pack_take_bit)
  then have "unat ?x < 2 ^ 16"
    by (rule take_bit_16_bound)
  then show ?thesis
    by (simp add: adc_pack_def unsigned_ucast_eq take_bit_nat_eq_self)
qed

section \<open>The producers: loops and outcomes\<close>

lemma DATA_LEN_256: "DATA_LEN = 256"
  by (simp add: DATA_LEN_def MIC_BUFFER_SIZE_def ADC_BUFFER_SIZE_def)

lemma uint_count_16: "0 \<le> n \<Longrightarrow> n \<le> 256 \<Longrightarrow> uint (word_of_int n :: 16 word) = n"
  by (simp add: uint_word_of_int)

lemma uint_count_32: "0 \<le> n \<Longrightarrow> n \<le> 256 \<Longrightarrow> uint (word_of_int n :: 32 word) = n"
  by (simp add: uint_word_of_int)

lemma unat_count_16: "0 \<le> n \<Longrightarrow> n \<le> 256 \<Longrightarrow> unat (word_of_int n :: 16 word) = nat n"
  by (simp add: unat_eq_nat_uint uint_count_16)

lemma unat_count_32: "0 \<le> n \<Longrightarrow> n \<le> 256 \<Longrightarrow> unat (word_of_int n :: 32 word) = nat n"
  by (simp add: unat_eq_nat_uint uint_count_32)

lemma sdiv_nonneg: "0 \<le> a \<Longrightarrow> 0 < b \<Longrightarrow> a sdiv b = a div (b :: int)"
  by (simp add: signed_divide_int_def sgn_if)

text \<open>
  The copy loops: within the bounds of both arrays a loop returns, and the entries from the
  start index up to the count hold the copied values; whenever a loop returns, the data
  array keeps its length.
\<close>

lemma QI2S_loop_result:
  "0 \<le> j \<Longrightarrow> num_samples \<le> int (length d) \<Longrightarrow> 2 * num_samples \<le> int (length buf) \<Longrightarrow>
   \<exists>d'. QI2S_loop buf num_samples j d = Inr d' \<and> length d' = length d \<and>
        (\<forall>k < length d. d' ! k = (if j \<le> int k \<and> int k < num_samples then buf ! (2 * k + 1) else d ! k))"
proof (induction buf num_samples j d rule: QI2S_loop.induct)
  case (1 buf num_samples j d)
  show ?case
  proof (cases "j < num_samples")
    case False
    then show ?thesis by (auto simp: QI2S_loop.simps [of buf num_samples j d])
  next
    case True
    with "1.prems" have inb: "0 \<le> j \<and> nat (2 * j + 1) < length buf \<and> nat j < length d"
      by linarith
    let ?d1 = "d[nat j := buf ! nat (2 * j + 1)]"
    have "\<exists>d'. QI2S_loop buf num_samples (j + 1) ?d1 = Inr d' \<and> length d' = length ?d1 \<and>
        (\<forall>k < length ?d1. d' ! k = (if j + 1 \<le> int k \<and> int k < num_samples then buf ! (2 * k + 1) else ?d1 ! k))"
      using True inb "1.prems" by (intro "1.IH") simp_all
    then obtain d' where d': "QI2S_loop buf num_samples (j + 1) ?d1 = Inr d'" "length d' = length d"
      and nth: "\<And>k. k < length d \<Longrightarrow> d' ! k = (if j + 1 \<le> int k \<and> int k < num_samples then buf ! (2 * k + 1) else ?d1 ! k)"
      by auto
    have unfold: "QI2S_loop buf num_samples j d = QI2S_loop buf num_samples (j + 1) ?d1"
      using True inb by (simp add: QI2S_loop.simps [of buf num_samples j d])
    have "d' ! k = (if j \<le> int k \<and> int k < num_samples then buf ! (2 * k + 1) else d ! k)"
      if "k < length d" for k
    proof (cases "k = nat j")
      case True
      with that inb \<open>j < num_samples\<close> nth [OF that] show ?thesis
        by (simp add: nat_add_distrib nat_mult_distrib)
    next
      case False
      with that inb nth [OF that] show ?thesis
        by (auto simp: nth_list_update)
    qed
    with unfold d' show ?thesis by simp
  qed
qed

lemma QI2S_loop_length: "QI2S_loop buf num_samples j d = Inr d' \<Longrightarrow> length d' = length d"
proof (induction buf num_samples j d rule: QI2S_loop.induct)
  case (1 buf num_samples j d)
  show ?case
  proof (cases "j < num_samples")
    case False
    with "1.prems" show ?thesis
      by (simp add: QI2S_loop.simps [of buf num_samples j d])
  next
    case True
    show ?thesis
    proof (cases "0 \<le> j \<and> nat (2 * j + 1) < length buf \<and> nat j < length d")
      case False
      with True "1.prems" show ?thesis
        by (simp add: QI2S_loop.simps [of buf num_samples j d])
    next
      case inb: True
      let ?d1 = "d[nat j := buf ! nat (2 * j + 1)]"
      from True inb "1.prems" have "QI2S_loop buf num_samples (j + 1) ?d1 = Inr d'"
        by (simp add: QI2S_loop.simps [of buf num_samples j d])
      from "1.IH" [OF True inb this] show ?thesis
        by simp
    qed
  qed
qed

lemma QADC_loop_result:
  "0 \<le> i \<Longrightarrow> num_conv \<le> int (length d) \<Longrightarrow> num_conv \<le> int (length buf) \<Longrightarrow>
   \<exists>d'. QADC_loop buf num_conv i d = Inr d' \<and> length d' = length d \<and>
        (\<forall>k < length d. d' ! k =
           (if i \<le> int k \<and> int k < num_conv
            then adc_pack (type2_channel (buf ! k)) (type2_data (buf ! k)) else d ! k))"
proof (induction buf num_conv i d rule: QADC_loop.induct)
  case (1 buf num_conv i d)
  show ?case
  proof (cases "i < num_conv")
    case False
    then show ?thesis by (auto simp: QADC_loop.simps [of buf num_conv i d])
  next
    case True
    with "1.prems" have inb: "0 \<le> i \<and> nat i < length buf \<and> nat i < length d"
      by linarith
    let ?d1 = "d[nat i := adc_pack (type2_channel (buf ! nat i)) (type2_data (buf ! nat i))]"
    have "\<exists>d'. QADC_loop buf num_conv (i + 1) ?d1 = Inr d' \<and> length d' = length ?d1 \<and>
        (\<forall>k < length ?d1. d' ! k =
           (if i + 1 \<le> int k \<and> int k < num_conv
            then adc_pack (type2_channel (buf ! k)) (type2_data (buf ! k)) else ?d1 ! k))"
      using True inb "1.prems" by (intro "1.IH") simp_all
    then obtain d' where d': "QADC_loop buf num_conv (i + 1) ?d1 = Inr d'" "length d' = length d"
      and nth: "\<And>k. k < length d \<Longrightarrow> d' ! k =
           (if i + 1 \<le> int k \<and> int k < num_conv
            then adc_pack (type2_channel (buf ! k)) (type2_data (buf ! k)) else ?d1 ! k)"
      by auto
    have unfold: "QADC_loop buf num_conv i d = QADC_loop buf num_conv (i + 1) ?d1"
      using True inb by (simp add: QADC_loop.simps [of buf num_conv i d] Let_def)
    have "d' ! k = (if i \<le> int k \<and> int k < num_conv
            then adc_pack (type2_channel (buf ! k)) (type2_data (buf ! k)) else d ! k)"
      if "k < length d" for k
    proof (cases "k = nat i")
      case True
      with that inb \<open>i < num_conv\<close> nth [OF that] show ?thesis
        by simp
    next
      case False
      with that inb nth [OF that] show ?thesis
        by (auto simp: nth_list_update)
    qed
    with unfold d' show ?thesis by simp
  qed
qed

lemma QADC_loop_length: "QADC_loop buf num_conv i d = Inr d' \<Longrightarrow> length d' = length d"
proof (induction buf num_conv i d rule: QADC_loop.induct)
  case (1 buf num_conv i d)
  show ?case
  proof (cases "i < num_conv")
    case False
    with "1.prems" show ?thesis
      by (simp add: QADC_loop.simps [of buf num_conv i d])
  next
    case True
    show ?thesis
    proof (cases "0 \<le> i \<and> nat i < length buf \<and> nat i < length d")
      case False
      with True "1.prems" show ?thesis
        by (simp add: QADC_loop.simps [of buf num_conv i d])
    next
      case inb: True
      let ?d1 = "d[nat i := adc_pack (type2_channel (buf ! nat i)) (type2_data (buf ! nat i))]"
      from True inb "1.prems" have "QADC_loop buf num_conv (i + 1) ?d1 = Inr d'"
        by (simp add: QADC_loop.simps [of buf num_conv i d] Let_def)
      from "1.IH" [OF True inb refl refl refl this] show ?thesis
        by simp
    qed
  qed
qed

text \<open>The message a producer builds from a count and a filled data array.\<close>

lemma built_frame_ok:
  assumes "0 \<le> n" and "n \<le> 256" and "length d = DATA_LEN"
    and "src = SOURCE_MIC \<or> src = SOURCE_ADC"
  shows "frame_ok \<lparr>header = \<lparr>source = src, metadata = 0, length_f = word_of_int n, timestamp = now\<rparr>,
                   buffer = \<lparr>data = d, end_f = word_of_int n\<rparr>\<rparr>"
  using assms by (simp add: frame_ok_def unat_count_16 unat_count_32 DATA_LEN_256)

lemma QI2Smsg_connected:
  assumes "0 \<le> client_socket s" and "size_p sdiv 2 \<le> MIC_BUFFER_SIZE"
    and "2 * (size_p sdiv 2) \<le> int (length buf)"
  shows "\<exists>d. QI2Smsg s now stack buf size_p =
               xQueueSend s \<lparr>header = \<lparr>source = SOURCE_MIC, metadata = 0,
                                      length_f = word_of_int (size_p sdiv 2), timestamp = now\<rparr>,
                            buffer = \<lparr>data = d, end_f = word_of_int (size_p sdiv 2)\<rparr>\<rparr> \<and>
             length d = DATA_LEN \<and>
             (\<forall>k < DATA_LEN. d ! k = (if int k < size_p sdiv 2 then buf ! (2 * k + 1) else stack k))"
proof -
  have "size_p sdiv 2 \<le> int (length (map stack [0..<DATA_LEN]))"
    using assms(2) by (simp add: DATA_LEN_256 MIC_BUFFER_SIZE_def)
  from QI2S_loop_result [OF order_refl this assms(3)]
  obtain d where d: "QI2S_loop buf (size_p sdiv 2) 0 (map stack [0..<DATA_LEN]) = Inr d"
    "length d = DATA_LEN"
    "\<And>k. k < DATA_LEN \<Longrightarrow> d ! k = (if int k < size_p sdiv 2 then buf ! (2 * k + 1) else stack k)"
    by auto
  with assms(1,2) show ?thesis
    by (auto simp: QI2Smsg_def Let_def)
qed

lemma QI2Smsg_returns:
  assumes r: "QI2Smsg s now stack buf size_p = Inr s'"
  shows "s' = s \<or>
         (\<exists>d. 0 \<le> client_socket s \<and> size_p sdiv 2 \<le> 256 \<and> length d = DATA_LEN \<and>
              s' = s\<lparr>outbound_queue := outbound_queue s @
                      [\<lparr>header = \<lparr>source = SOURCE_MIC, metadata = 0,
                                  length_f = word_of_int (size_p sdiv 2), timestamp = now\<rparr>,
                        buffer = \<lparr>data = d, end_f = word_of_int (size_p sdiv 2)\<rparr>\<rparr>]\<rparr>)"
proof (cases "client_socket s < 0")
  case True
  with r show ?thesis by (simp add: QI2Smsg_def)
next
  case False
  let ?n = "size_p sdiv 2"
  have le: "?n \<le> MIC_BUFFER_SIZE"
  proof (rule ccontr)
    assume "\<not> ?n \<le> MIC_BUFFER_SIZE"
    with False r show False by (simp add: QI2Smsg_def Let_def)
  qed
  obtain d where d: "QI2S_loop buf ?n 0 (map stack [0..<DATA_LEN]) = Inr d"
  proof (cases "QI2S_loop buf ?n 0 (map stack [0..<DATA_LEN])")
    case (Inl e)
    with False le r have False by (simp add: QI2Smsg_def Let_def)
    then show ?thesis ..
  next
    case (Inr d)
    then show ?thesis by (rule that)
  qed
  have len: "length d = DATA_LEN"
    using QI2S_loop_length [OF d] by simp
  let ?m = "\<lparr>header = \<lparr>source = SOURCE_MIC, metadata = 0,
                        length_f = word_of_int ?n, timestamp = now\<rparr>,
              buffer = \<lparr>data = d, end_f = word_of_int ?n\<rparr>\<rparr>"
  from False le d r have "xQueueSend s ?m = Inr s'"
    by (simp add: QI2Smsg_def Let_def)
  then have "s' = s\<lparr>outbound_queue := outbound_queue s @ [?m]\<rparr>"
    by (simp add: xQueueSend_def split: if_splits)
  moreover from le have "?n \<le> 256"
    by (simp add: MIC_BUFFER_SIZE_def)
  moreover from False have "0 \<le> client_socket s"
    by simp
  ultimately show ?thesis
    using len by blast
qed

lemma QADCmsg_connected:
  assumes "0 \<le> client_socket s" and "size_p sdiv SOC_ADC_DIGI_RESULT_BYTES \<le> ADC_BUFFER_SIZE"
    and "size_p sdiv SOC_ADC_DIGI_RESULT_BYTES \<le> int (length buf)"
  shows "\<exists>d. QADCmsg s now stack buf size_p =
               xQueueSend s \<lparr>header = \<lparr>source = SOURCE_ADC, metadata = 0,
                                      length_f = word_of_int (size_p sdiv SOC_ADC_DIGI_RESULT_BYTES),
                                      timestamp = now\<rparr>,
                            buffer = \<lparr>data = d,
                                      end_f = word_of_int (size_p sdiv SOC_ADC_DIGI_RESULT_BYTES)\<rparr>\<rparr> \<and>
             length d = DATA_LEN \<and>
             (\<forall>k < DATA_LEN. d ! k =
                (if int k < size_p sdiv SOC_ADC_DIGI_RESULT_BYTES
                 then adc_pack (type2_channel (buf ! k)) (type2_data (buf ! k)) else stack k))"
proof -
  let ?n = "size_p sdiv SOC_ADC_DIGI_RESULT_BYTES"
  have "?n \<le> int (length (map stack [0..<DATA_LEN]))"
    using assms(2) by (simp add: DATA_LEN_256 ADC_BUFFER_SIZE_def)
  from QADC_loop_result [OF order_refl this assms(3)]
  obtain d where d: "QADC_loop buf ?n 0 (map stack [0..<DATA_LEN]) = Inr d"
    "length d = DATA_LEN"
    "\<And>k. k < DATA_LEN \<Longrightarrow> d ! k =
       (if int k < ?n then adc_pack (type2_channel (buf ! k)) (type2_data (buf ! k)) else stack k)"
    by auto
  with assms(1,2) show ?thesis
    by (auto simp: QADCmsg_def Let_def)
qed

lemma QADCmsg_returns:
  assumes r: "QADCmsg s now stack buf size_p = Inr s'"
  shows "s' = s \<or>
         (\<exists>d. 0 \<le> client_socket s \<and> size_p sdiv SOC_ADC_DIGI_RESULT_BYTES \<le> 256 \<and>
              length d = DATA_LEN \<and>
              s' = s\<lparr>outbound_queue := outbound_queue s @
                      [\<lparr>header = \<lparr>source = SOURCE_ADC, metadata = 0,
                                  length_f = word_of_int (size_p sdiv SOC_ADC_DIGI_RESULT_BYTES),
                                  timestamp = now\<rparr>,
                        buffer = \<lparr>data = d,
                                  end_f = word_of_int (size_p sdiv SOC_ADC_DIGI_RESULT_BYTES)\<rparr>\<rparr>]\<rparr>)"
proof (cases "client_socket s < 0")
  case True
  with r show ?thesis by (simp add: QADCmsg_def)
next
  case False
  let ?n = "size_p sdiv SOC_ADC_DIGI_RESULT_BYTES"
  have le: "?n \<le> ADC_BUFFER_SIZE"
  proof (rule ccontr)
    assume "\<not> ?n \<le> ADC_BUFFER_SIZE"
    with False r show False by (simp add: QADCmsg_def Let_def)
  qed
  obtain d where d: "QADC_loop buf ?n 0 (map stack [0..<DATA_LEN]) = Inr d"
  proof (cases "QADC_loop buf ?n 0 (map stack [0..<DATA_LEN])")
    case (Inl e)
    with False le r have False by (simp add: QADCmsg_def Let_def)
    then show ?thesis ..
  next
    case (Inr d)
    then show ?thesis by (rule that)
  qed
  have len: "length d = DATA_LEN"
    using QADC_loop_length [OF d] by simp
  let ?m = "\<lparr>header = \<lparr>source = SOURCE_ADC, metadata = 0,
                        length_f = word_of_int ?n, timestamp = now\<rparr>,
              buffer = \<lparr>data = d, end_f = word_of_int ?n\<rparr>\<rparr>"
  from False le d r have "xQueueSend s ?m = Inr s'"
    by (simp add: QADCmsg_def Let_def)
  then have "s' = s\<lparr>outbound_queue := outbound_queue s @ [?m]\<rparr>"
    by (simp add: xQueueSend_def split: if_splits)
  moreover from le have "?n \<le> 256"
    by (simp add: ADC_BUFFER_SIZE_def)
  moreover from False have "0 \<le> client_socket s"
    by simp
  ultimately show ?thesis
    using len by blast
qed

section \<open>Delivery: the failure counter and the disconnect\<close>

lemma send_msg_disconnected: "client_socket s < 0 \<Longrightarrow> send_msg net s msg = Inr s"
  by (simp add: send_msg_def)

lemma send_msgs_disconnected: "client_socket s < 0 \<Longrightarrow> send_msgs net s ms = Inr s"
  by (induction ms) (simp_all add: send_msg_disconnected)

lemma send_msg_header_fails:
  assumes "0 \<le> client_socket s" and "net (length (sent s)) < 0"
  shows "send_msg net s msg
           = Inr (send_failed (s\<lparr>sent := sent s @ [header_bytes (header msg)]\<rparr>))"
  using assms
  by (simp add: send_msg_def send_def length_header_bytes sizeof_packet_header_t_def)

text \<open>
  A run of calls on a connection where every write fails, from any counter value up to 11:
  each call makes one write (the header) and counts one failure, until the call that finds
  the counter at 11 closes the connection; later calls return at once.
\<close>

lemma all_fail_run:
  assumes fails: "\<And>k. net k < 0"
  shows "0 \<le> client_socket s \<Longrightarrow> errors s \<le> 11 \<Longrightarrow>
    \<exists>s'. send_msgs net s ms = Inr s' \<and>
         errors s' = min (errors s + int (length ms)) 12 \<and>
         client_socket s' = (if errors s + int (length ms) < 12 then client_socket s else - 1) \<and>
         int (length (sent s')) = int (length (sent s)) + min (int (length ms)) (12 - errors s)"
proof (induction ms arbitrary: s)
  case Nil
  then show ?case by simp
next
  case (Cons m ms)
  let ?s1 = "send_failed (s\<lparr>sent := sent s @ [header_bytes (header m)]\<rparr>)"
  have step: "send_msg net s m = Inr ?s1"
    using Cons.prems(1) fails by (rule send_msg_header_fails)
  have len1: "length (sent ?s1) = Suc (length (sent s))"
    by (simp add: send_failed_def Let_def)
  show ?case
  proof (cases "errors s = 11")
    case True
    then have gone: "client_socket ?s1 = - 1" and e: "errors ?s1 = 12"
      by (simp_all add: send_failed_def Let_def)
    from gone have "send_msgs net ?s1 ms = Inr ?s1"
      by (simp add: send_msgs_disconnected)
    with step gone e True len1 show ?thesis by simp
  next
    case False
    with Cons.prems have lt: "errors s \<le> 10" by simp
    then have c1: "client_socket ?s1 = client_socket s" and e1: "errors ?s1 = errors s + 1"
      by (simp_all add: send_failed_def Let_def)
    from c1 e1 lt Cons.prems have "0 \<le> client_socket ?s1" "errors ?s1 \<le> 11" by simp_all
    from Cons.IH [OF this] obtain s' where
      "send_msgs net ?s1 ms = Inr s'"
      "errors s' = min (errors ?s1 + int (length ms)) 12"
      "client_socket s' = (if errors ?s1 + int (length ms) < 12 then client_socket ?s1 else - 1)"
      "int (length (sent s')) = int (length (sent ?s1)) + min (int (length ms)) (12 - errors ?s1)"
      by blast
    with step c1 e1 len1 lt show ?thesis by (simp add: add.commute add.left_commute min_def)
  qed
qed

text \<open>
  Claim C1, as the code has it. On a connection where every write fails, starting connected
  with the counter at 0, the state after any number of calls of \<^verbatim>\<open>send_msg\<close> is: still
  connected if there were fewer than 12 calls, disconnected (\<^verbatim>\<open>client_socket = -1\<close>) from the
  12th call on, so the transition happens once, at the 12th consecutive failure, because
  \<^verbatim>\<open>errors++ > 10\<close> compares the value before the increment. The counter is not reset by
  the transition: it is the number of failures, at most 12, and stays 12 afterwards. The
  calls after the transition make no write.
\<close>

theorem disconnect_on_twelfth_failure:
  assumes "\<And>k. net k < 0" and "0 \<le> client_socket s" and "errors s = 0"
  shows "\<exists>s'. send_msgs net s ms = Inr s' \<and>
           client_socket s' = (if length ms < 12 then client_socket s else - 1) \<and>
           errors s' = min (int (length ms)) 12 \<and>
           length (sent s') = length (sent s) + min (length ms) 12"
proof -
  from all_fail_run [where net = net and s = s and ms = ms] assms obtain s' where
    "send_msgs net s ms = Inr s'"
    "errors s' = min (int (length ms)) 12"
    "client_socket s' = (if int (length ms) < 12 then client_socket s else - 1)"
    "int (length (sent s')) = int (length (sent s)) + min (int (length ms)) 12"
    by auto
  then show ?thesis by (auto simp: min_def)
qed

theorem disconnect_on_twelfth_failure_witness:
  "\<exists>s'. send_msgs all_writes_fail connected_sys (replicate 12 empty_frame) = Inr s' \<and>
        client_socket s' = - 1 \<and> errors s' = 12 \<and> length (sent s') = 12"
  using disconnect_on_twelfth_failure [of all_writes_fail connected_sys "replicate 12 empty_frame"]
  by (simp add: all_writes_fail_def connected_sys_def)

text \<open>
  The claim as the spec states it fails: after the 11th consecutive failure the client is
  still connected (socket 3, counter 11), and after the 12th the counter is 12, not 0.
\<close>

theorem disconnect_threshold_counterexample:
  "send_msgs all_writes_fail connected_sys (replicate 11 empty_frame)
     = Inr (connected_sys\<lparr>errors := 11,
                           sent := replicate 11 (header_bytes (header empty_frame))\<rparr>)
   \<and> send_msgs all_writes_fail connected_sys (replicate 12 empty_frame)
     = Inr (connected_sys\<lparr>client_socket := - 1, errors := 12,
                           sent := replicate 12 (header_bytes (header empty_frame))\<rparr>)"
  by (simp add: numeral_eq_Suc send_msg_header_fails all_writes_fail_def connected_sys_def
      send_failed_def send_msg_disconnected)

text \<open>
  Claim C10. When no client is connected, \<^verbatim>\<open>send_msg\<close> returns the state as it found it;
  an iteration of \<^verbatim>\<open>OutBoundTask\<close> that dequeues a message then only removes it from the
  queue: no call of \<^verbatim>\<open>send\<close> is logged, and the failure counter and \<^verbatim>\<open>client_socket\<close> keep
  their values.
\<close>

theorem delivery_discards_when_disconnected:
  assumes "client_socket s < 0"
  shows "send_msg net s m = Inr s \<and>
         (outbound_queue s = m # rest \<longrightarrow>
            (\<exists>s'. OutBoundTask_step net s = Inr s' \<and> s' = s\<lparr>outbound_queue := rest\<rparr> \<and>
                  sent s' = sent s \<and> errors s' = errors s \<and> client_socket s' = client_socket s))"
  using assms by (simp add: OutBoundTask_step_def send_msg_def)

theorem delivery_discards_when_disconnected_witness:
  "client_socket (idle_sys\<lparr>outbound_queue := [empty_frame]\<rparr>) < 0 \<and>
   send_msg all_writes_pass (idle_sys\<lparr>outbound_queue := [empty_frame]\<rparr>) empty_frame
     = Inr (idle_sys\<lparr>outbound_queue := [empty_frame]\<rparr>) \<and>
   OutBoundTask_step all_writes_pass (idle_sys\<lparr>outbound_queue := [empty_frame]\<rparr>) = Inr idle_sys"
  using delivery_discards_when_disconnected
    [of "idle_sys\<lparr>outbound_queue := [empty_frame]\<rparr>" all_writes_pass empty_frame "[]"]
  by (simp add: idle_sys_def)

section \<open>The producers: claims\<close>

text \<open>
  Claim C5. While no client is connected (\<^verbatim>\<open>client_socket < 0\<close>) both producers return at
  their first line: the state, and with it the outbound queue, is unchanged, for every
  block and every size; no message is built. The same holds for an iteration of either
  task, whatever the hardware read returned.
\<close>

theorem producers_gate_on_connection:
  assumes "client_socket s < 0"
  shows "QI2Smsg s now stack buf size_p = Inr s \<and>
         QADCmsg s now stack abuf size_q = Inr s \<and>
         mic_task_step s now stack ok bytes_read buf = Inr s \<and>
         adc_task_step s now stack ok adc_bytes_read abuf = Inr s"
  using assms by (simp add: QI2Smsg_def QADCmsg_def mic_task_step_def adc_task_step_def)

theorem producers_gate_on_connection_witness:
  "client_socket idle_sys < 0 \<and>
   QI2Smsg idle_sys 7 zero_stack [1, 2, 3, 4] 4 = Inr idle_sys \<and>
   QADCmsg idle_sys 7 zero_stack [\<lparr>type2_channel = 2, type2_data = 0xABC\<rparr>] 4 = Inr idle_sys \<and>
   mic_task_step idle_sys 7 zero_stack True 8 [1, 2, 3, 4] = Inr idle_sys \<and>
   adc_task_step idle_sys 7 zero_stack True 4 [\<lparr>type2_channel = 2, type2_data = 0xABC\<rparr>]
     = Inr idle_sys"
  using producers_gate_on_connection [of idle_sys 7 zero_stack "[1, 2, 3, 4]" 4
      "[\<lparr>type2_channel = 2, type2_data = 0xABC\<rparr>]" 4 True 8 4]
  by (simp add: idle_sys_def)

text \<open>
  Claim C2, as the code has it. With a client connected, a block whose count exceeds the
  capacity (\<^verbatim>\<open>size / 2 > MIC_BUFFER_SIZE\<close>, \<^verbatim>\<open>size / SOC_ADC_DIGI_RESULT_BYTES > ADC_BUFFER_SIZE\<close>)
  fails the producer's \<^verbatim>\<open>assert\<close>: the call does not return to the task loop, and nothing
  is built or enqueued.
\<close>

theorem oversize_block_fails_assert:
  assumes "0 \<le> client_socket s"
  shows "(MIC_BUFFER_SIZE < size_p sdiv 2 \<longrightarrow>
            QI2Smsg s now stack buf size_p = Inl AssertFailed) \<and>
         (ADC_BUFFER_SIZE < size_q sdiv SOC_ADC_DIGI_RESULT_BYTES \<longrightarrow>
            QADCmsg s now stack abuf size_q = Inl AssertFailed)"
  using assms by (simp add: QI2Smsg_def QADCmsg_def Let_def)

theorem oversize_block_fails_assert_witness:
  "0 \<le> client_socket connected_sys \<and> MIC_BUFFER_SIZE < 600 sdiv 2 \<and>
   QI2Smsg connected_sys 7 zero_stack (replicate 600 0) 600 = Inl AssertFailed \<and>
   ADC_BUFFER_SIZE < 2000 sdiv SOC_ADC_DIGI_RESULT_BYTES \<and>
   QADCmsg connected_sys 7 zero_stack [] 2000 = Inl AssertFailed"
  using oversize_block_fails_assert [of connected_sys 600 7 zero_stack "replicate 600 0" 2000 "[]"]
  by (simp add: connected_sys_def MIC_BUFFER_SIZE_def ADC_BUFFER_SIZE_def
      SOC_ADC_DIGI_RESULT_BYTES_def signed_divide_int_def)

text \<open>
  The claim as the spec states it (the block is dropped and the task goes on) fails: a
  block of 514 raw samples, or of 257 conversion records, stops at the assertion.
\<close>

theorem oversize_block_counterexample:
  "QI2Smsg connected_sys 7 zero_stack (replicate 514 0) 514 = Inl AssertFailed \<and>
   QADCmsg connected_sys 7 zero_stack
      (replicate 257 \<lparr>type2_channel = 2, type2_data = 0xABC\<rparr>) 1028 = Inl AssertFailed"
  by (simp add: QI2Smsg_def QADCmsg_def connected_sys_def MIC_BUFFER_SIZE_def ADC_BUFFER_SIZE_def
      SOC_ADC_DIGI_RESULT_BYTES_def signed_divide_int_def)

text \<open>
  Claim C3. With a client connected, for a raw block of \<open>size_p\<close> samples (at most twice the
  capacity), \<^verbatim>\<open>QI2Smsg\<close> builds one message and hands it to \<^verbatim>\<open>xQueueSend\<close>: its source is
  \<^verbatim>\<open>SOURCE_MIC\<close>, its timestamp the clock value, its \<^verbatim>\<open>length\<close> is \<open>size_p div 2\<close>, and entry
  \<open>j\<close> of its data is raw sample \<open>2 * j + 1\<close> for every \<open>j\<close> below that count.
\<close>

theorem audio_frame_keeps_odd_samples:
  assumes "0 \<le> client_socket s" and "0 \<le> size_p" and "size_p div 2 \<le> MIC_BUFFER_SIZE"
    and "size_p \<le> int (length buf)"
  shows "\<exists>m. QI2Smsg s now stack buf size_p = xQueueSend s m \<and>
             source (header m) = SOURCE_MIC \<and>
             timestamp (header m) = now \<and>
             uint (length_f (header m)) = size_p div 2 \<and>
             (\<forall>j < nat (size_p div 2). data (buffer m) ! j = buf ! (2 * j + 1)) \<and>
             take (unat (length_f (header m))) (data (buffer m))
               = map (\<lambda>j. buf ! (2 * j + 1)) [0..<nat (size_p div 2)]"
proof -
  let ?n = "size_p div 2"
  have sd: "size_p sdiv 2 = ?n"
    using assms(2) by (simp add: sdiv_nonneg)
  have n0: "0 \<le> ?n" and n256: "?n \<le> 256"
    using assms(2,3) by (simp_all add: MIC_BUFFER_SIZE_def)
  have "2 * (size_p sdiv 2) \<le> int (length buf)"
    using assms(2,4) sd by simp
  from QI2Smsg_connected [OF assms(1) _ this, of now stack] assms(3) sd
  obtain d where d: "QI2Smsg s now stack buf size_p =
               xQueueSend s \<lparr>header = \<lparr>source = SOURCE_MIC, metadata = 0,
                                      length_f = word_of_int ?n, timestamp = now\<rparr>,
                            buffer = \<lparr>data = d, end_f = word_of_int ?n\<rparr>\<rparr>"
    and len: "length d = DATA_LEN"
    and nth: "\<And>k. k < DATA_LEN \<Longrightarrow> d ! k = (if int k < ?n then buf ! (2 * k + 1) else stack k)"
    by auto
  have nth': "d ! j = buf ! (2 * j + 1)" if "j < nat ?n" for j
  proof -
    from that n256 have "j < DATA_LEN" and "int j < ?n"
      by (simp_all add: DATA_LEN_256)
    with nth [of j] show ?thesis by simp
  qed
  have "take (nat ?n) d = map (\<lambda>j. buf ! (2 * j + 1)) [0..<nat ?n]"
    using n256 len nth' by (intro nth_equalityI) (simp_all add: DATA_LEN_256)
  with d nth' show ?thesis
    by (intro exI [of _ "\<lparr>header = \<lparr>source = SOURCE_MIC, metadata = 0,
                                      length_f = word_of_int ?n, timestamp = now\<rparr>,
                            buffer = \<lparr>data = d, end_f = word_of_int ?n\<rparr>\<rparr>"])
      (simp add: uint_count_16 [OF n0 n256] unat_count_16 [OF n0 n256])
qed

text \<open>
  The scenario of the spec: the 512 raw samples \<open>0, 1, ..., 511\<close> give \<^verbatim>\<open>length\<close> 256 and
  the payload \<open>1, 3, 5, ..., 511\<close>.
\<close>

theorem audio_frame_keeps_odd_samples_witness:
  "\<exists>m. QI2Smsg connected_sys 7 zero_stack (map word_of_nat [0..<512]) 512
          = xQueueSend connected_sys m \<and>
        source (header m) = SOURCE_MIC \<and>
        length_f (header m) = 256 \<and>
        take 256 (data (buffer m)) = map (\<lambda>j. word_of_nat (2 * j + 1)) [0..<256]"
proof -
  from audio_frame_keeps_odd_samples [of connected_sys 512 "map word_of_nat [0..<512]" 7 zero_stack]
  obtain m where m: "QI2Smsg connected_sys 7 zero_stack (map word_of_nat [0..<512]) 512
          = xQueueSend connected_sys m" "source (header m) = SOURCE_MIC"
      "uint (length_f (header m)) = 256"
      "take (unat (length_f (header m))) (data (buffer m))
               = map (\<lambda>j. (map word_of_nat [0..<512] :: 16 word list) ! (2 * j + 1)) [0..<256]"
    by (auto simp: connected_sys_def MIC_BUFFER_SIZE_def)
  from m(3) have l: "length_f (header m) = 256"
    by (simp add: word_uint_eq_iff)
  have "map (\<lambda>j. (map word_of_nat [0..<512] :: 16 word list) ! (2 * j + 1)) [0..<256]
          = map (\<lambda>j. word_of_nat (2 * j + 1)) [0..<256]"
    by (rule map_cong) simp_all
  with m l show ?thesis by auto
qed

text \<open>
  Claim C4. With a client connected, for a block of \<open>size_p\<close> bytes holding
  \<open>size_p div SOC_ADC_DIGI_RESULT_BYTES\<close> conversion records (at most the capacity), \<^verbatim>\<open>QADCmsg\<close>
  builds one message and hands it to \<^verbatim>\<open>xQueueSend\<close>: its source is \<^verbatim>\<open>SOURCE_ADC\<close>, its
  \<^verbatim>\<open>length\<close> is the number of records, and entry \<open>i\<close> of its data is the packing of record
  \<open>i\<close>, whose unsigned 16-bit value is \<^verbatim>\<open>((chan & 0xF) << 12) | (data & 0x0FFF)\<close>: the
  conversion to \<^verbatim>\<open>int16_t\<close> loses no bit.
\<close>

theorem adc_frame_packs_records:
  assumes "0 \<le> client_socket s" and "0 \<le> size_p"
    and "size_p div SOC_ADC_DIGI_RESULT_BYTES \<le> ADC_BUFFER_SIZE"
    and "size_p div SOC_ADC_DIGI_RESULT_BYTES \<le> int (length buf)"
  shows "\<exists>m. QADCmsg s now stack buf size_p = xQueueSend s m \<and>
             source (header m) = SOURCE_ADC \<and>
             timestamp (header m) = now \<and>
             uint (length_f (header m)) = size_p div SOC_ADC_DIGI_RESULT_BYTES \<and>
             (\<forall>i < nat (size_p div SOC_ADC_DIGI_RESULT_BYTES).
                data (buffer m) ! i = adc_pack (type2_channel (buf ! i)) (type2_data (buf ! i)) \<and>
                unat (data (buffer m) ! i)
                  = unat (push_bit 12 (type2_channel (buf ! i) AND 0xF)
                            OR (type2_data (buf ! i) AND 0x0FFF)))"
proof -
  let ?n = "size_p div SOC_ADC_DIGI_RESULT_BYTES"
  have sd: "size_p sdiv SOC_ADC_DIGI_RESULT_BYTES = ?n"
    using assms(2) by (simp add: sdiv_nonneg SOC_ADC_DIGI_RESULT_BYTES_def)
  have n0: "0 \<le> ?n" and n256: "?n \<le> 256"
    using assms(2,3) by (simp_all add: ADC_BUFFER_SIZE_def SOC_ADC_DIGI_RESULT_BYTES_def)
  from assms(3,4) sd have
    "size_p sdiv SOC_ADC_DIGI_RESULT_BYTES \<le> ADC_BUFFER_SIZE"
    "size_p sdiv SOC_ADC_DIGI_RESULT_BYTES \<le> int (length buf)"
    by simp_all
  from QADCmsg_connected [OF assms(1) this, of now stack] sd
  obtain d where d: "QADCmsg s now stack buf size_p =
               xQueueSend s \<lparr>header = \<lparr>source = SOURCE_ADC, metadata = 0,
                                      length_f = word_of_int ?n, timestamp = now\<rparr>,
                            buffer = \<lparr>data = d, end_f = word_of_int ?n\<rparr>\<rparr>"
    and nth: "\<And>k. k < DATA_LEN \<Longrightarrow> d ! k =
                (if int k < ?n then adc_pack (type2_channel (buf ! k)) (type2_data (buf ! k))
                 else stack k)"
    by auto
  have nth': "d ! i = adc_pack (type2_channel (buf ! i)) (type2_data (buf ! i))"
    if "i < nat ?n" for i
  proof -
    from that n256 have "i < DATA_LEN" and "int i < ?n"
      by (simp_all add: DATA_LEN_256)
    with nth [of i] show ?thesis by simp
  qed
  with d show ?thesis
    by (intro exI [of _ "\<lparr>header = \<lparr>source = SOURCE_ADC, metadata = 0,
                                      length_f = word_of_int ?n, timestamp = now\<rparr>,
                            buffer = \<lparr>data = d, end_f = word_of_int ?n\<rparr>\<rparr>"])
      (simp add: uint_count_16 [OF n0 n256] adc_pack_unat)
qed

text \<open>The scenario of the spec: channel 2 with data \<open>0xABC\<close> is stored as \<open>0x2ABC\<close>.\<close>

theorem adc_frame_packs_records_witness:
  "\<exists>m. QADCmsg connected_sys 7 zero_stack [\<lparr>type2_channel = 2, type2_data = 0xABC\<rparr>] 4
          = xQueueSend connected_sys m \<and>
        source (header m) = SOURCE_ADC \<and>
        length_f (header m) = 1 \<and>
        data (buffer m) ! 0 = 0x2ABC"
proof -
  from adc_frame_packs_records
    [of connected_sys 4 "[\<lparr>type2_channel = 2, type2_data = 0xABC\<rparr>]" 7 zero_stack]
  obtain m where m: "QADCmsg connected_sys 7 zero_stack [\<lparr>type2_channel = 2, type2_data = 0xABC\<rparr>] 4
          = xQueueSend connected_sys m" "source (header m) = SOURCE_ADC"
      "uint (length_f (header m)) = 1"
      "data (buffer m) ! 0 = adc_pack 2 0xABC"
    by (auto simp: connected_sys_def ADC_BUFFER_SIZE_def SOC_ADC_DIGI_RESULT_BYTES_def)
  from m(3) have "length_f (header m) = 1"
    by (simp add: word_uint_eq_iff)
  moreover have "adc_pack 2 0xABC = 0x2ABC"
    by (simp add: adc_pack_def)
  ultimately show ?thesis using m by auto
qed

section \<open>The tasks\<close>

lemma uint_le_of_unat_le: "unat (w :: 32 word) \<le> n \<Longrightarrow> uint w \<le> int n"
  by (simp only: uint_nat of_nat_le_iff)

lemma sint_fits: "uint (w :: 32 word) < 2 ^ 31 \<Longrightarrow> sint w = uint w"
proof -
  assume b: "uint w < 2 ^ 31"
  have c: "- (2 ^ 31) \<le> uint w"
    by (rule order_trans [OF _ uint_ge_0]) simp
  have "sint w = signed_take_bit 31 (uint w)"
    by (simp add: sint_uint)
  also have "\<dots> = uint w"
    using b c by (intro signed_take_bit_int_eq_self) simp_all
  finally show ?thesis .
qed

lemma uint_half: "uint ((w :: 32 word) div 2) = uint w div 2"
  by (simp add: uint_div)

text \<open>The sample count \<^verbatim>\<open>mic_task\<close> passes, and the count \<^verbatim>\<open>QI2Smsg\<close> derives from it.\<close>

lemma mic_count:
  "uint ((bytes_read :: 32 word) div 2) sdiv 2 = uint bytes_read div 2 div 2"
  "0 \<le> uint bytes_read div 2 div 2"
proof -
  have "0 \<le> uint bytes_read div 2"
    by simp
  then show "uint (bytes_read div 2) sdiv 2 = uint bytes_read div 2 div 2"
    by (simp only: uint_half sdiv_nonneg zero_less_numeral)
  show "0 \<le> uint bytes_read div 2 div 2"
    by simp
qed

lemma adc_count:
  assumes "uint (adc_bytes_read :: 32 word) < 2 ^ 31"
  shows "sint adc_bytes_read sdiv SOC_ADC_DIGI_RESULT_BYTES = uint adc_bytes_read div 4"
    and "0 \<le> uint adc_bytes_read div 4"
proof -
  have "0 \<le> uint adc_bytes_read"
    by simp
  then show "sint adc_bytes_read sdiv SOC_ADC_DIGI_RESULT_BYTES = uint adc_bytes_read div 4"
    by (simp only: sint_fits [OF assms] SOC_ADC_DIGI_RESULT_BYTES_def sdiv_nonneg zero_less_numeral)
  show "0 \<le> uint adc_bytes_read div 4"
    by (simp add: pos_imp_zdiv_nonneg_iff)
qed

text \<open>
  Claim C8. When the hardware reads return at most the bytes asked for (the sizes of
  \<^verbatim>\<open>i2s_read_buf\<close> and \<^verbatim>\<open>adc_dma_buf\<close>), an iteration of \<^verbatim>\<open>mic_task\<close> either produces nothing or
  builds one message, handed to \<^verbatim>\<open>xQueueSend\<close>, with source \<^verbatim>\<open>SOURCE_MIC\<close> and \<^verbatim>\<open>length\<close> at
  most 256; an iteration of \<^verbatim>\<open>adc_task\<close> likewise, with source \<^verbatim>\<open>SOURCE_ADC\<close>. In particular
  no assertion fails and no access leaves a buffer.
\<close>

theorem produced_frames_within_capacity:
  assumes "unat bytes_read \<le> i2s_read_buf_bytes"
    and "length i2s_read_buf = nat (MIC_BUFFER_SIZE * 2)"
    and "unat adc_bytes_read \<le> adc_dma_buf_bytes"
    and "length adc_dma_buf = nat ADC_BUFFER_SIZE"
  shows "(mic_task_step s now stack ok bytes_read i2s_read_buf = Inr s \<or>
          (\<exists>m. mic_task_step s now stack ok bytes_read i2s_read_buf = xQueueSend s m \<and>
               source (header m) = SOURCE_MIC \<and> unat (length_f (header m)) \<le> 256)) \<and>
         (adc_task_step s now stack ok adc_bytes_read adc_dma_buf = Inr s \<or>
          (\<exists>m. adc_task_step s now stack ok adc_bytes_read adc_dma_buf = xQueueSend s m \<and>
               source (header m) = SOURCE_ADC \<and> unat (length_f (header m)) \<le> 256))"
proof
  let ?samples = "uint (bytes_read div 2)"
  let ?n = "uint bytes_read div 2 div 2"
  have "uint bytes_read \<le> int i2s_read_buf_bytes"
    using assms(1) by (rule uint_le_of_unat_le)
  then have b: "uint bytes_read \<le> 1024"
    by (simp add: i2s_read_buf_bytes_def MIC_BUFFER_SIZE_def)
  have sd: "?samples sdiv 2 = ?n" and n0: "0 \<le> ?n"
    by (rule mic_count)+
  have n256: "?n \<le> 256"
    using b by simp
  show "mic_task_step s now stack ok bytes_read i2s_read_buf = Inr s \<or>
          (\<exists>m. mic_task_step s now stack ok bytes_read i2s_read_buf = xQueueSend s m \<and>
               source (header m) = SOURCE_MIC \<and> unat (length_f (header m)) \<le> 256)"
  proof (cases "ok \<and> bytes_read > 0 \<and> 0 \<le> client_socket s")
    case False
    then have "mic_task_step s now stack ok bytes_read i2s_read_buf = Inr s"
      by (auto simp: mic_task_step_def QI2Smsg_def)
    then show ?thesis ..
  next
    case True
    have "?samples sdiv 2 \<le> MIC_BUFFER_SIZE"
      using n256 by (simp only: sd MIC_BUFFER_SIZE_def)
    moreover have "2 * (?samples sdiv 2) \<le> int (length i2s_read_buf)"
      using n256 assms(2) by (simp only: sd) (simp add: MIC_BUFFER_SIZE_def)
    ultimately obtain d where
      "QI2Smsg s now stack i2s_read_buf ?samples =
         xQueueSend s \<lparr>header = \<lparr>source = SOURCE_MIC, metadata = 0,
                                length_f = word_of_int (?samples sdiv 2), timestamp = now\<rparr>,
                      buffer = \<lparr>data = d, end_f = word_of_int (?samples sdiv 2)\<rparr>\<rparr>"
      using QI2Smsg_connected [of s ?samples i2s_read_buf now stack] True by blast
    then have "mic_task_step s now stack ok bytes_read i2s_read_buf =
         xQueueSend s \<lparr>header = \<lparr>source = SOURCE_MIC, metadata = 0,
                                length_f = word_of_int ?n, timestamp = now\<rparr>,
                      buffer = \<lparr>data = d, end_f = word_of_int ?n\<rparr>\<rparr>"
      using True by (simp only: sd mic_task_step_def Let_def if_True simp_thms)
    moreover have "unat (word_of_int ?n :: 16 word) \<le> 256"
      using n0 n256 by (simp add: unat_count_16)
    ultimately show ?thesis
      by (intro disjI2 exI [of _ "\<lparr>header = \<lparr>source = SOURCE_MIC, metadata = 0,
                                length_f = word_of_int ?n, timestamp = now\<rparr>,
                      buffer = \<lparr>data = d, end_f = word_of_int ?n\<rparr>\<rparr>"]) simp
  qed
next
  let ?size = "sint adc_bytes_read"
  let ?n = "uint adc_bytes_read div 4"
  have "uint adc_bytes_read \<le> int adc_dma_buf_bytes"
    using assms(3) by (rule uint_le_of_unat_le)
  then have b: "uint adc_bytes_read \<le> 1024"
    by (simp add: adc_dma_buf_bytes_def ADC_BUFFER_SIZE_def SOC_ADC_DIGI_RESULT_BYTES_def)
  then have fits: "uint adc_bytes_read < 2 ^ 31"
    by simp
  have sd: "?size sdiv SOC_ADC_DIGI_RESULT_BYTES = ?n" and n0: "0 \<le> ?n"
    by (rule adc_count [OF fits])+
  have n256: "?n \<le> 256"
    using b by simp
  show "adc_task_step s now stack ok adc_bytes_read adc_dma_buf = Inr s \<or>
          (\<exists>m. adc_task_step s now stack ok adc_bytes_read adc_dma_buf = xQueueSend s m \<and>
               source (header m) = SOURCE_ADC \<and> unat (length_f (header m)) \<le> 256)"
  proof (cases "ok \<and> adc_bytes_read > 0 \<and> 0 \<le> client_socket s")
    case False
    then have "adc_task_step s now stack ok adc_bytes_read adc_dma_buf = Inr s"
      by (auto simp: adc_task_step_def QADCmsg_def)
    then show ?thesis ..
  next
    case True
    have "?size sdiv SOC_ADC_DIGI_RESULT_BYTES \<le> ADC_BUFFER_SIZE"
      using n256 by (simp only: sd ADC_BUFFER_SIZE_def)
    moreover have "?size sdiv SOC_ADC_DIGI_RESULT_BYTES \<le> int (length adc_dma_buf)"
      using n256 assms(4) by (simp only: sd) (simp add: ADC_BUFFER_SIZE_def)
    ultimately obtain d where
      "QADCmsg s now stack adc_dma_buf ?size =
         xQueueSend s \<lparr>header = \<lparr>source = SOURCE_ADC, metadata = 0,
                                length_f = word_of_int (?size sdiv SOC_ADC_DIGI_RESULT_BYTES),
                                timestamp = now\<rparr>,
                      buffer = \<lparr>data = d,
                                end_f = word_of_int (?size sdiv SOC_ADC_DIGI_RESULT_BYTES)\<rparr>\<rparr>"
      using QADCmsg_connected [of s ?size adc_dma_buf now stack] True by blast
    then have "adc_task_step s now stack ok adc_bytes_read adc_dma_buf =
         xQueueSend s \<lparr>header = \<lparr>source = SOURCE_ADC, metadata = 0,
                                length_f = word_of_int ?n, timestamp = now\<rparr>,
                      buffer = \<lparr>data = d, end_f = word_of_int ?n\<rparr>\<rparr>"
      using True by (simp only: sd adc_task_step_def if_True simp_thms)
    moreover have "unat (word_of_int ?n :: 16 word) \<le> 256"
      using n0 n256 by (simp add: unat_count_16)
    ultimately show ?thesis
      by (intro disjI2 exI [of _ "\<lparr>header = \<lparr>source = SOURCE_ADC, metadata = 0,
                                length_f = word_of_int ?n, timestamp = now\<rparr>,
                      buffer = \<lparr>data = d, end_f = word_of_int ?n\<rparr>\<rparr>"]) simp
  qed
qed

theorem produced_frames_within_capacity_witness:
  "unat (8 :: 32 word) \<le> i2s_read_buf_bytes \<and>
   length (replicate 512 (0 :: 16 word)) = nat (MIC_BUFFER_SIZE * 2) \<and>
   unat (8 :: 32 word) \<le> adc_dma_buf_bytes \<and>
   length (replicate 256 \<lparr>type2_channel = 2, type2_data = 0xABC\<rparr>) = nat ADC_BUFFER_SIZE \<and>
   (mic_task_step connected_sys 7 zero_stack True 8 (replicate 512 0) = Inr connected_sys \<or>
    (\<exists>m. mic_task_step connected_sys 7 zero_stack True 8 (replicate 512 0)
            = xQueueSend connected_sys m \<and>
         source (header m) = SOURCE_MIC \<and> unat (length_f (header m)) \<le> 256)) \<and>
   (adc_task_step connected_sys 7 zero_stack True 8
      (replicate 256 \<lparr>type2_channel = 2, type2_data = 0xABC\<rparr>) = Inr connected_sys \<or>
    (\<exists>m. adc_task_step connected_sys 7 zero_stack True 8
            (replicate 256 \<lparr>type2_channel = 2, type2_data = 0xABC\<rparr>)
            = xQueueSend connected_sys m \<and>
         source (header m) = SOURCE_ADC \<and> unat (length_f (header m)) \<le> 256))"
  using produced_frames_within_capacity
    [of 8 "replicate 512 0" 8 "replicate 256 \<lparr>type2_channel = 2, type2_data = 0xABC\<rparr>"
        connected_sys 7 zero_stack True]
  by (simp add: i2s_read_buf_bytes_def adc_dma_buf_bytes_def MIC_BUFFER_SIZE_def
      ADC_BUFFER_SIZE_def SOC_ADC_DIGI_RESULT_BYTES_def)

text \<open>
  What an iteration of a task leaves in the queue: nothing, or one more message at the back,
  which satisfies the invariant and carries the task's source tag.
\<close>

lemma mic_task_step_enqueues:
  assumes r: "mic_task_step s now stack ok bytes_read i2s_read_buf = Inr s'"
  shows "s' = s \<or>
         (\<exists>m. s' = s\<lparr>outbound_queue := outbound_queue s @ [m]\<rparr> \<and>
              frame_ok m \<and> source (header m) = SOURCE_MIC)"
proof (cases "ok \<and> bytes_read > 0")
  case False
  with r have "s' = s"
    by (auto simp: mic_task_step_def)
  then show ?thesis ..
next
  case True
  let ?samples = "uint (bytes_read div 2)"
  let ?n = "uint bytes_read div 2 div 2"
  have sd: "?samples sdiv 2 = ?n" and n0: "0 \<le> ?n"
    by (rule mic_count)+
  from True r have "QI2Smsg s now stack i2s_read_buf ?samples = Inr s'"
    by (simp add: mic_task_step_def Let_def)
  from QI2Smsg_returns [OF this] show ?thesis
  proof
    assume "s' = s"
    then show ?thesis ..
  next
    assume "\<exists>d. 0 \<le> client_socket s \<and> ?samples sdiv 2 \<le> 256 \<and> length d = DATA_LEN \<and>
            s' = s\<lparr>outbound_queue := outbound_queue s @
                    [\<lparr>header = \<lparr>source = SOURCE_MIC, metadata = 0,
                                length_f = word_of_int (?samples sdiv 2), timestamp = now\<rparr>,
                      buffer = \<lparr>data = d, end_f = word_of_int (?samples sdiv 2)\<rparr>\<rparr>]\<rparr>"
    then obtain d where n256: "?n \<le> 256" and len: "length d = DATA_LEN"
      and s': "s' = s\<lparr>outbound_queue := outbound_queue s @
                    [\<lparr>header = \<lparr>source = SOURCE_MIC, metadata = 0,
                                length_f = word_of_int ?n, timestamp = now\<rparr>,
                      buffer = \<lparr>data = d, end_f = word_of_int ?n\<rparr>\<rparr>]\<rparr>"
      unfolding sd by blast
    have "frame_ok \<lparr>header = \<lparr>source = SOURCE_MIC, metadata = 0,
                                length_f = word_of_int ?n, timestamp = now\<rparr>,
                      buffer = \<lparr>data = d, end_f = word_of_int ?n\<rparr>\<rparr>"
      using n0 n256 len by (intro built_frame_ok) simp_all
    with s' show ?thesis
      by (intro disjI2 exI [of _ "\<lparr>header = \<lparr>source = SOURCE_MIC, metadata = 0,
                                length_f = word_of_int ?n, timestamp = now\<rparr>,
                      buffer = \<lparr>data = d, end_f = word_of_int ?n\<rparr>\<rparr>"]) simp
  qed
qed

lemma adc_task_step_enqueues:
  assumes fits: "uint adc_bytes_read < 2 ^ 31"
    and r: "adc_task_step s now stack ok adc_bytes_read adc_dma_buf = Inr s'"
  shows "s' = s \<or>
         (\<exists>m. s' = s\<lparr>outbound_queue := outbound_queue s @ [m]\<rparr> \<and>
              frame_ok m \<and> source (header m) = SOURCE_ADC)"
proof (cases "ok \<and> adc_bytes_read > 0")
  case False
  with r have "s' = s"
    by (auto simp: adc_task_step_def)
  then show ?thesis ..
next
  case True
  let ?size = "sint adc_bytes_read"
  let ?n = "uint adc_bytes_read div 4"
  have sd: "?size sdiv SOC_ADC_DIGI_RESULT_BYTES = ?n" and n0: "0 \<le> ?n"
    by (rule adc_count [OF fits])+
  from True r have "QADCmsg s now stack adc_dma_buf ?size = Inr s'"
    by (simp add: adc_task_step_def)
  from QADCmsg_returns [OF this] show ?thesis
  proof
    assume "s' = s"
    then show ?thesis ..
  next
    assume "\<exists>d. 0 \<le> client_socket s \<and> ?size sdiv SOC_ADC_DIGI_RESULT_BYTES \<le> 256 \<and>
            length d = DATA_LEN \<and>
            s' = s\<lparr>outbound_queue := outbound_queue s @
                    [\<lparr>header = \<lparr>source = SOURCE_ADC, metadata = 0,
                                length_f = word_of_int (?size sdiv SOC_ADC_DIGI_RESULT_BYTES),
                                timestamp = now\<rparr>,
                      buffer = \<lparr>data = d,
                                end_f = word_of_int (?size sdiv SOC_ADC_DIGI_RESULT_BYTES)\<rparr>\<rparr>]\<rparr>"
    then obtain d where n256: "?n \<le> 256" and len: "length d = DATA_LEN"
      and s': "s' = s\<lparr>outbound_queue := outbound_queue s @
                    [\<lparr>header = \<lparr>source = SOURCE_ADC, metadata = 0,
                                length_f = word_of_int ?n, timestamp = now\<rparr>,
                      buffer = \<lparr>data = d, end_f = word_of_int ?n\<rparr>\<rparr>]\<rparr>"
      unfolding sd by blast
    have "frame_ok \<lparr>header = \<lparr>source = SOURCE_ADC, metadata = 0,
                                length_f = word_of_int ?n, timestamp = now\<rparr>,
                      buffer = \<lparr>data = d, end_f = word_of_int ?n\<rparr>\<rparr>"
      using n0 n256 len by (intro built_frame_ok) simp_all
    with s' show ?thesis
      by (intro disjI2 exI [of _ "\<lparr>header = \<lparr>source = SOURCE_ADC, metadata = 0,
                                length_f = word_of_int ?n, timestamp = now\<rparr>,
                      buffer = \<lparr>data = d, end_f = word_of_int ?n\<rparr>\<rparr>"]) simp
  qed
qed

lemma frame_ok_lengths:
  assumes "frame_ok m"
  shows "unat (end_f (buffer m)) = unat (length_f (header m))"
    and "unat (end_f (buffer m) * 2) = 2 * unat (length_f (header m))"
proof -
  from assms have a: "unat (end_f (buffer m)) = unat (length_f (header m))"
    and b: "unat (end_f (buffer m)) \<le> 256"
    by (simp_all add: frame_ok_def DATA_LEN_256)
  from a show "unat (end_f (buffer m)) = unat (length_f (header m))" .
  from unat_twice [OF b] a show "unat (end_f (buffer m) * 2) = 2 * unat (length_f (header m))"
    by simp
qed

text \<open>
  What \<^verbatim>\<open>send_msg\<close> writes for a message whose \<^verbatim>\<open>end\<close> lies within the data array, when the
  header write does not fail: the header bytes, then the first \<^verbatim>\<open>end\<close> samples.
\<close>

lemma header_bytes_fields:
  "(header_bytes h @ pl) ! 0 = source h"
  "(header_bytes h @ pl) ! 1 = metadata h"
  "take 2 (drop 2 (header_bytes h @ pl)) = le_bytes 2 (length_f h)"
  "take 8 (drop 4 (header_bytes h @ pl)) = le_bytes 8 (timestamp h)"
  "drop 12 (header_bytes h @ pl) = pl"
  by (simp_all add: header_bytes_def length_le_bytes)

lemma payload_bytes:
  assumes "unat (end_f b) \<le> DATA_LEN" and "length (data b) = DATA_LEN"
  shows "unat (end_f b * 2) \<le> length (buffer_bytes b)"
    and "take (unat (end_f b * 2)) (buffer_bytes b)
           = concat (map (le_bytes 2) (take (unat (end_f b)) (data b)))"
proof -
  have tw: "unat (end_f b * 2) = 2 * unat (end_f b)"
    using assms(1) by (intro unat_twice) (simp add: DATA_LEN_256)
  have len: "length (concat (map (le_bytes 2) (data b))) = 2 * DATA_LEN"
    by (simp only: length_concat_le_bytes_2 assms(2))
  show "unat (end_f b * 2) \<le> length (buffer_bytes b)"
    using assms(1) by (simp add: tw buffer_bytes_def len)
  have "take (2 * unat (end_f b)) (buffer_bytes b)
          = take (2 * unat (end_f b)) (concat (map (le_bytes 2) (data b)))"
    using assms(1) by (simp add: buffer_bytes_def len)
  then show "take (unat (end_f b * 2)) (buffer_bytes b)
           = concat (map (le_bytes 2) (take (unat (end_f b)) (data b)))"
    by (simp only: tw take_concat_le_bytes_2)
qed

lemma send_msg_header_sent:
  assumes "0 \<le> client_socket s" and "0 \<le> net (length (sent s))"
    and "unat (end_f (buffer m)) \<le> DATA_LEN" and "length (data (buffer m)) = DATA_LEN"
  shows "\<exists>s'. send_msg net s m = Inr s' \<and>
              sent s' = sent s @ [header_bytes (header m),
                                  concat (map (le_bytes 2)
                                    (take (unat (end_f (buffer m))) (data (buffer m))))]"
  using assms(1,2) payload_bytes [OF assms(3,4)]
  by (simp add: send_msg_def send_def length_header_bytes send_failed_def Let_def
      sizeof_packet_header_t_def sizeof_int16_t_def)

lemma send_msg_both_pass:
  assumes "0 \<le> client_socket s" and "0 \<le> net (length (sent s))"
    and "0 \<le> net (Suc (length (sent s)))"
    and "unat (end_f (buffer m)) \<le> DATA_LEN" and "length (data (buffer m)) = DATA_LEN"
  shows "\<exists>s'. send_msg net s m = Inr s' \<and> errors s' = 0 \<and> client_socket s' = client_socket s"
  using assms(1,2,3) payload_bytes [OF assms(4,5)]
  by (simp add: send_msg_def send_def length_header_bytes Let_def
      sizeof_packet_header_t_def sizeof_int16_t_def)

lemma send_msg_delivers:
  assumes "frame_ok m" and "0 \<le> client_socket u" and "0 \<le> net (length (sent u))"
  shows "\<exists>u' hdr pl. send_msg net u m = Inr u' \<and> sent u' = sent u @ [hdr, pl] \<and>
           hdr = header_bytes (header m) \<and>
           take 2 (drop 2 hdr) = le_bytes 2 (length_f (header m)) \<and>
           length pl = unat (length_f (header m)) * 2"
proof -
  from assms(1) have ok: "unat (end_f (buffer m)) \<le> DATA_LEN" "length (data (buffer m)) = DATA_LEN"
    and eq: "unat (end_f (buffer m)) = unat (length_f (header m))"
    by (simp_all add: frame_ok_def)
  let ?pl = "concat (map (le_bytes 2) (take (unat (length_f (header m))) (data (buffer m))))"
  from send_msg_header_sent [where net = net, OF assms(2,3) ok] obtain u' where
    u': "send_msg net u m = Inr u'" "sent u' = sent u @ [header_bytes (header m), ?pl]"
    unfolding eq by blast
  have len: "length ?pl = unat (length_f (header m)) * 2"
    using ok eq by (simp add: length_concat_le_bytes_2)
  have "take 2 (drop 2 (header_bytes (header m))) = le_bytes 2 (length_f (header m))"
    using header_bytes_fields(3) [of "header m" "[]"] by simp
  with u' len show ?thesis by blast
qed

text \<open>
  Claim C9. Every message that an iteration of \<^verbatim>\<open>mic_task\<close> adds to the queue has
  \<^verbatim>\<open>buffer.end\<close> equal to \<^verbatim>\<open>header.length\<close>, and the byte count \<^verbatim>\<open>end * sizeof(int16_t)\<close> is
  twice \<^verbatim>\<open>header.length\<close>, without wrap-around. When \<^verbatim>\<open>send_msg\<close> is called for that message
  on a connected client and the header write does not fail, it writes the header, whose
  bytes 2 and 3 hold \<^verbatim>\<open>header.length\<close>, and then a payload of exactly \<^verbatim>\<open>header.length\<close> times
  2 bytes: the count announced on the wire is the count of samples sent. The same holds for
  \<^verbatim>\<open>adc_task\<close> whenever the byte count of the read fits the \<^verbatim>\<open>int\<close> parameter of \<^verbatim>\<open>QADCmsg\<close>, as
  every count up to the 1024 bytes asked for does.
\<close>

theorem enqueued_length_matches_end:
  "(mic_task_step s now stack ok bytes_read i2s_read_buf = Inr s' \<longrightarrow>
      s' = s \<or>
      (\<exists>m. s' = s\<lparr>outbound_queue := outbound_queue s @ [m]\<rparr> \<and>
           unat (end_f (buffer m)) = unat (length_f (header m)) \<and>
           unat (end_f (buffer m) * 2) = 2 * unat (length_f (header m)) \<and>
           (\<forall>net u. 0 \<le> client_socket u \<and> 0 \<le> net (length (sent u)) \<longrightarrow>
              (\<exists>u' hdr pl. send_msg net u m = Inr u' \<and> sent u' = sent u @ [hdr, pl] \<and>
                  hdr = header_bytes (header m) \<and>
                  take 2 (drop 2 hdr) = le_bytes 2 (length_f (header m)) \<and>
                  length pl = unat (length_f (header m)) * 2)))) \<and>
   (uint adc_bytes_read < 2 ^ 31 \<and>
    adc_task_step t now stack ok adc_bytes_read adc_dma_buf = Inr t' \<longrightarrow>
      t' = t \<or>
      (\<exists>m. t' = t\<lparr>outbound_queue := outbound_queue t @ [m]\<rparr> \<and>
           unat (end_f (buffer m)) = unat (length_f (header m)) \<and>
           unat (end_f (buffer m) * 2) = 2 * unat (length_f (header m)) \<and>
           (\<forall>net u. 0 \<le> client_socket u \<and> 0 \<le> net (length (sent u)) \<longrightarrow>
              (\<exists>u' hdr pl. send_msg net u m = Inr u' \<and> sent u' = sent u @ [hdr, pl] \<and>
                  hdr = header_bytes (header m) \<and>
                  take 2 (drop 2 hdr) = le_bytes 2 (length_f (header m)) \<and>
                  length pl = unat (length_f (header m)) * 2))))"
proof -
  have deliver: "unat (end_f (buffer m)) = unat (length_f (header m)) \<and>
           unat (end_f (buffer m) * 2) = 2 * unat (length_f (header m)) \<and>
           (\<forall>net u. 0 \<le> client_socket u \<and> 0 \<le> net (length (sent u)) \<longrightarrow>
              (\<exists>u' hdr pl. send_msg net u m = Inr u' \<and> sent u' = sent u @ [hdr, pl] \<and>
                  hdr = header_bytes (header m) \<and>
                  take 2 (drop 2 hdr) = le_bytes 2 (length_f (header m)) \<and>
                  length pl = unat (length_f (header m)) * 2))"
    if "frame_ok m" for m
  proof (intro conjI allI impI)
    show "unat (end_f (buffer m)) = unat (length_f (header m))"
      and "unat (end_f (buffer m) * 2) = 2 * unat (length_f (header m))"
      using that by (rule frame_ok_lengths)+
  next
    fix net :: "nat \<Rightarrow> int" and u :: sys
    assume "0 \<le> client_socket u \<and> 0 \<le> net (length (sent u))"
    then have "0 \<le> client_socket u" and "0 \<le> net (length (sent u))"
      by simp_all
    with that show "\<exists>u' hdr pl. send_msg net u m = Inr u' \<and> sent u' = sent u @ [hdr, pl] \<and>
                  hdr = header_bytes (header m) \<and>
                  take 2 (drop 2 hdr) = le_bytes 2 (length_f (header m)) \<and>
                  length pl = unat (length_f (header m)) * 2"
      by (rule send_msg_delivers [where net = net])
  qed
  show ?thesis
  proof (intro conjI impI)
    assume "mic_task_step s now stack ok bytes_read i2s_read_buf = Inr s'"
    from mic_task_step_enqueues [OF this] deliver
    show "s' = s \<or>
      (\<exists>m. s' = s\<lparr>outbound_queue := outbound_queue s @ [m]\<rparr> \<and>
           unat (end_f (buffer m)) = unat (length_f (header m)) \<and>
           unat (end_f (buffer m) * 2) = 2 * unat (length_f (header m)) \<and>
           (\<forall>net u. 0 \<le> client_socket u \<and> 0 \<le> net (length (sent u)) \<longrightarrow>
              (\<exists>u' hdr pl. send_msg net u m = Inr u' \<and> sent u' = sent u @ [hdr, pl] \<and>
                  hdr = header_bytes (header m) \<and>
                  take 2 (drop 2 hdr) = le_bytes 2 (length_f (header m)) \<and>
                  length pl = unat (length_f (header m)) * 2)))"
      by blast
  next
    assume "uint adc_bytes_read < 2 ^ 31 \<and>
      adc_task_step t now stack ok adc_bytes_read adc_dma_buf = Inr t'"
    then have "t' = t \<or>
         (\<exists>m. t' = t\<lparr>outbound_queue := outbound_queue t @ [m]\<rparr> \<and>
              frame_ok m \<and> source (header m) = SOURCE_ADC)"
      by (intro adc_task_step_enqueues [of adc_bytes_read t now stack ok adc_dma_buf t']) simp_all
    with deliver
    show "t' = t \<or>
      (\<exists>m. t' = t\<lparr>outbound_queue := outbound_queue t @ [m]\<rparr> \<and>
           unat (end_f (buffer m)) = unat (length_f (header m)) \<and>
           unat (end_f (buffer m) * 2) = 2 * unat (length_f (header m)) \<and>
           (\<forall>net u. 0 \<le> client_socket u \<and> 0 \<le> net (length (sent u)) \<longrightarrow>
              (\<exists>u' hdr pl. send_msg net u m = Inr u' \<and> sent u' = sent u @ [hdr, pl] \<and>
                  hdr = header_bytes (header m) \<and>
                  take 2 (drop 2 hdr) = le_bytes 2 (length_f (header m)) \<and>
                  length pl = unat (length_f (header m)) * 2)))"
      by blast
  qed
qed

theorem enqueued_length_matches_end_witness:
  "(\<exists>s' m u' hdr pl.
     mic_task_step connected_sys 7 zero_stack True 8 [1, 2, 3, 4] = Inr s' \<and>
     s' = connected_sys\<lparr>outbound_queue := [m]\<rparr> \<and>
     unat (length_f (header m)) = 2 \<and> unat (end_f (buffer m)) = 2 \<and>
     OutBoundTask_step all_writes_pass s' = Inr u' \<and>
     sent u' = [hdr, pl] \<and> take 2 (drop 2 hdr) = le_bytes 2 (2 :: 16 word) \<and> length pl = 4) \<and>
   uint (8 :: 32 word) < 2 ^ 31 \<and>
   (\<exists>t' m v' hdr pl.
     adc_task_step connected_sys 7 zero_stack True 8
       [\<lparr>type2_channel = 2, type2_data = 0xABC\<rparr>, \<lparr>type2_channel = 3, type2_data = 0x123\<rparr>]
       = Inr t' \<and>
     t' = connected_sys\<lparr>outbound_queue := [m]\<rparr> \<and>
     unat (length_f (header m)) = 2 \<and> unat (end_f (buffer m)) = 2 \<and>
     OutBoundTask_step all_writes_pass t' = Inr v' \<and>
     sent v' = [hdr, pl] \<and> take 2 (drop 2 hdr) = le_bytes 2 (2 :: 16 word) \<and> length pl = 4)"
proof -
  let ?recs = "[\<lparr>type2_channel = 2, type2_data = 0xABC\<rparr>, \<lparr>type2_channel = 3, type2_data = 0x123\<rparr>]"
  let ?idle = "connected_sys\<lparr>outbound_queue := []\<rparr>"
  have c: "0 \<le> client_socket connected_sys"
    and q: "outbound_queue connected_sys = []"
    by (simp_all add: connected_sys_def)
  have f: "uint (8 :: 32 word) < 2 ^ 31"
    by simp
  have u: "0 \<le> client_socket ?idle" "0 \<le> all_writes_pass (length (sent ?idle))"
    and w: "sent ?idle = []"
    by (simp_all add: connected_sys_def all_writes_pass_def)
  have ne: "connected_sys\<lparr>outbound_queue := [x]\<rparr> \<noteq> connected_sys" for x
    by (simp add: connected_sys_def)
  have inj: "x = y" if "connected_sys\<lparr>outbound_queue := [x]\<rparr>
                        = connected_sys\<lparr>outbound_queue := outbound_queue connected_sys @ [y]\<rparr>" for x y
    using that by (simp add: connected_sys_def)
  have deq: "OutBoundTask_step net (connected_sys\<lparr>outbound_queue := [x]\<rparr>) = send_msg net ?idle x"
    for net x
    by (simp add: OutBoundTask_step_def)
  obtain d where dA: "QI2Smsg connected_sys 7 zero_stack [1, 2, 3, 4] 4 =
      xQueueSend connected_sys
        \<lparr>header = \<lparr>source = SOURCE_MIC, metadata = 0, length_f = word_of_int (4 sdiv 2),
                   timestamp = 7\<rparr>,
         buffer = \<lparr>data = d, end_f = word_of_int (4 sdiv 2)\<rparr>\<rparr>"
    using QI2Smsg_connected [OF c, of 4 "[1, 2, 3, 4]" 7 zero_stack]
    by (auto simp: MIC_BUFFER_SIZE_def signed_divide_int_def)
  let ?a = "\<lparr>header = \<lparr>source = SOURCE_MIC, metadata = 0, length_f = 2, timestamp = 7\<rparr>,
            buffer = \<lparr>data = d, end_f = 2\<rparr>\<rparr>"
  from dA have s': "mic_task_step connected_sys 7 zero_stack True 8 [1, 2, 3, 4]
           = Inr (connected_sys\<lparr>outbound_queue := [?a]\<rparr>)"
    by (simp add: mic_task_step_def xQueueSend_def q QUEUE_LENGTH_def signed_divide_int_def)
  obtain d2 where dB: "QADCmsg connected_sys 7 zero_stack ?recs 8 =
      xQueueSend connected_sys
        \<lparr>header = \<lparr>source = SOURCE_ADC, metadata = 0,
                   length_f = word_of_int (8 sdiv SOC_ADC_DIGI_RESULT_BYTES), timestamp = 7\<rparr>,
         buffer = \<lparr>data = d2, end_f = word_of_int (8 sdiv SOC_ADC_DIGI_RESULT_BYTES)\<rparr>\<rparr>"
    using QADCmsg_connected [OF c, of 8 ?recs 7 zero_stack]
    by (auto simp: ADC_BUFFER_SIZE_def SOC_ADC_DIGI_RESULT_BYTES_def signed_divide_int_def)
  let ?b = "\<lparr>header = \<lparr>source = SOURCE_ADC, metadata = 0, length_f = 2, timestamp = 7\<rparr>,
            buffer = \<lparr>data = d2, end_f = 2\<rparr>\<rparr>"
  from dB have t': "adc_task_step connected_sys 7 zero_stack True 8 ?recs
           = Inr (connected_sys\<lparr>outbound_queue := [?b]\<rparr>)"
    by (simp add: adc_task_step_def xQueueSend_def q QUEUE_LENGTH_def
        SOC_ADC_DIGI_RESULT_BYTES_def signed_divide_int_def)
  note inst = enqueued_length_matches_end
    [of connected_sys 7 zero_stack True 8 "[1, 2, 3, 4]" "connected_sys\<lparr>outbound_queue := [?a]\<rparr>"
        8 connected_sys ?recs "connected_sys\<lparr>outbound_queue := [?b]\<rparr>"]
  from inst s' ne inj have
    "\<forall>net u. 0 \<le> client_socket u \<and> 0 \<le> net (length (sent u)) \<longrightarrow>
              (\<exists>u' hdr pl. send_msg net u ?a = Inr u' \<and> sent u' = sent u @ [hdr, pl] \<and>
                  hdr = header_bytes (header ?a) \<and>
                  take 2 (drop 2 hdr) = le_bytes 2 (length_f (header ?a)) \<and>
                  length pl = unat (length_f (header ?a)) * 2)"
    by blast
  with u obtain u' hdr pl where "send_msg all_writes_pass ?idle ?a = Inr u'"
    and "sent u' = sent ?idle @ [hdr, pl]"
    and "take 2 (drop 2 hdr) = le_bytes 2 (length_f (header ?a))"
    and "length pl = unat (length_f (header ?a)) * 2"
    by blast
  then have mic: "OutBoundTask_step all_writes_pass (connected_sys\<lparr>outbound_queue := [?a]\<rparr>) = Inr u'"
    "sent u' = [hdr, pl]" "take 2 (drop 2 hdr) = le_bytes 2 (2 :: 16 word)" "length pl = 4"
    by (simp_all add: deq w)
  from inst t' f ne inj have
    "\<forall>net u. 0 \<le> client_socket u \<and> 0 \<le> net (length (sent u)) \<longrightarrow>
              (\<exists>u' hdr pl. send_msg net u ?b = Inr u' \<and> sent u' = sent u @ [hdr, pl] \<and>
                  hdr = header_bytes (header ?b) \<and>
                  take 2 (drop 2 hdr) = le_bytes 2 (length_f (header ?b)) \<and>
                  length pl = unat (length_f (header ?b)) * 2)"
    by blast
  with u obtain v' hdr2 pl2 where "send_msg all_writes_pass ?idle ?b = Inr v'"
    and "sent v' = sent ?idle @ [hdr2, pl2]"
    and "take 2 (drop 2 hdr2) = le_bytes 2 (length_f (header ?b))"
    and "length pl2 = unat (length_f (header ?b)) * 2"
    by blast
  then have adc: "OutBoundTask_step all_writes_pass (connected_sys\<lparr>outbound_queue := [?b]\<rparr>) = Inr v'"
    "sent v' = [hdr2, pl2]" "take 2 (drop 2 hdr2) = le_bytes 2 (2 :: 16 word)" "length pl2 = 4"
    by (simp_all add: deq w)
  have la: "unat (length_f (header ?a)) = 2" "unat (end_f (buffer ?a)) = 2"
    and lb: "unat (length_f (header ?b)) = 2" "unat (end_f (buffer ?b)) = 2"
    by simp_all
  from s' mic la have M: "\<exists>s' m u' hdr pl.
     mic_task_step connected_sys 7 zero_stack True 8 [1, 2, 3, 4] = Inr s' \<and>
     s' = connected_sys\<lparr>outbound_queue := [m]\<rparr> \<and>
     unat (length_f (header m)) = 2 \<and> unat (end_f (buffer m)) = 2 \<and>
     OutBoundTask_step all_writes_pass s' = Inr u' \<and>
     sent u' = [hdr, pl] \<and> take 2 (drop 2 hdr) = le_bytes 2 (2 :: 16 word) \<and> length pl = 4"
    by blast
  from t' adc lb have N: "\<exists>t' m v' hdr pl.
     adc_task_step connected_sys 7 zero_stack True 8 ?recs = Inr t' \<and>
     t' = connected_sys\<lparr>outbound_queue := [m]\<rparr> \<and>
     unat (length_f (header m)) = 2 \<and> unat (end_f (buffer m)) = 2 \<and>
     OutBoundTask_step all_writes_pass t' = Inr v' \<and>
     sent v' = [hdr, pl] \<and> take 2 (drop 2 hdr) = le_bytes 2 (2 :: 16 word) \<and> length pl = 4"
    by blast
  from M f N show ?thesis
    by (intro conjI)
qed

section \<open>Delivery: the wire format\<close>

lemma frame_ok_adc_frame: "frame_ok adc_frame"
  by (simp add: frame_ok_def adc_frame_def DATA_LEN_256)

lemma adc_frame_header_bytes:
  "[source (header adc_frame), 0] @ le_bytes 2 (length_f (header adc_frame))
      @ le_bytes 8 (timestamp (header adc_frame))
    = [1, 0, 2, 0, 8, 7, 6, 5, 4, 3, 2, 1]"
  by code_simp

lemma adc_frame_payload_bytes:
  "concat (map (le_bytes 2) (take (unat (length_f (header adc_frame))) (data (buffer adc_frame))))
    = [0xBC, 0x2A, 0x34, 0x12]"
  by code_simp

text \<open>
  Claim C6. For a message that satisfies the invariant, on a connected client whose header
  write does not fail, \<^verbatim>\<open>send_msg\<close> makes exactly two writes, in this order: the 12 bytes
  of the header, which are the source byte (0 or 1), the metadata byte 0, the two bytes of
  \<^verbatim>\<open>length\<close> and the eight bytes of \<^verbatim>\<open>timestamp\<close>; then the first \<^verbatim>\<open>length\<close> samples of the data
  array, two bytes each, and nothing after them.
\<close>

theorem delivery_writes_header_then_payload:
  assumes "0 \<le> client_socket s" and "0 \<le> net (length (sent s))" and "frame_ok m"
  shows "\<exists>s' hdr pl. send_msg net s m = Inr s' \<and> sent s' = sent s @ [hdr, pl] \<and>
           length hdr = 12 \<and>
           hdr = [source (header m), 0] @ le_bytes 2 (length_f (header m))
                   @ le_bytes 8 (timestamp (header m)) \<and>
           (source (header m) = 0 \<or> source (header m) = 1) \<and>
           length pl = unat (length_f (header m)) * 2 \<and>
           pl = concat (map (le_bytes 2) (take (unat (length_f (header m))) (data (buffer m))))"
proof -
  from assms(3) have ok: "unat (end_f (buffer m)) \<le> DATA_LEN" "length (data (buffer m)) = DATA_LEN"
    and eq: "unat (end_f (buffer m)) = unat (length_f (header m))"
    and meta: "metadata (header m) = 0"
    and src: "source (header m) = 0 \<or> source (header m) = 1"
    by (simp_all add: frame_ok_def SOURCE_MIC_def SOURCE_ADC_def)
  from send_msg_header_sent [where net = net, OF assms(1,2) ok] obtain s' where
    s': "send_msg net s m = Inr s'"
      "sent s' = sent s @ [header_bytes (header m),
          concat (map (le_bytes 2) (take (unat (length_f (header m))) (data (buffer m))))]"
    unfolding eq by blast
  have "length (concat (map (le_bytes 2) (take (unat (length_f (header m))) (data (buffer m)))))
          = unat (length_f (header m)) * 2"
    using ok eq by (simp add: length_concat_le_bytes_2)
  with s' meta src show ?thesis
    by (intro exI [of _ s'] exI [of _ "header_bytes (header m)"]
        exI [of _ "concat (map (le_bytes 2) (take (unat (length_f (header m))) (data (buffer m))))"])
      (simp add: length_header_bytes, simp add: header_bytes_def)
qed

theorem delivery_writes_header_then_payload_witness:
  "\<exists>s'. send_msg all_writes_pass connected_sys adc_frame = Inr s' \<and>
        sent s' = [[1, 0, 2, 0, 8, 7, 6, 5, 4, 3, 2, 1], [0xBC, 0x2A, 0x34, 0x12]]"
proof -
  have "0 \<le> client_socket connected_sys"
    and "0 \<le> all_writes_pass (length (sent connected_sys))"
    by (simp_all add: connected_sys_def all_writes_pass_def)
  from delivery_writes_header_then_payload [where net = all_writes_pass, OF this frame_ok_adc_frame]
  obtain s' hdr pl where "send_msg all_writes_pass connected_sys adc_frame = Inr s'"
    and "sent s' = sent connected_sys @ [hdr, pl]"
    and "hdr = [source (header adc_frame), 0] @ le_bytes 2 (length_f (header adc_frame))
                   @ le_bytes 8 (timestamp (header adc_frame))"
    and "pl = concat (map (le_bytes 2)
                 (take (unat (length_f (header adc_frame))) (data (buffer adc_frame))))"
    by blast
  then show ?thesis
    by (simp only: adc_frame_header_bytes adc_frame_payload_bytes) (simp add: connected_sys_def)
qed

text \<open>
  Claim C7. For a message that satisfies the invariant, decoding the bytes of the two
  writes of \<^verbatim>\<open>send_msg\<close>, one after the other, gives back the Frame the message stands for:
  source, metadata, sample count, timestamp and payload.
\<close>

theorem wire_round_trip:
  assumes "0 \<le> client_socket s" and "0 \<le> net (length (sent s))" and "frame_ok m"
  shows "\<exists>s' hdr pl. send_msg net s m = Inr s' \<and> sent s' = sent s @ [hdr, pl] \<and>
           decode_frame (hdr @ pl) = Some (frame_of_msg m)"
proof -
  let ?pl = "concat (map (le_bytes 2) (take (unat (length_f (header m))) (data (buffer m))))"
  from assms(3) have ok: "unat (end_f (buffer m)) \<le> DATA_LEN" "length (data (buffer m)) = DATA_LEN"
    and eq: "unat (end_f (buffer m)) = unat (length_f (header m))"
    and src: "source (header m) = SOURCE_MIC \<or> source (header m) = SOURCE_ADC"
    by (simp_all add: frame_ok_def)
  from send_msg_header_sent [where net = net, OF assms(1,2) ok] obtain s' where
    s': "send_msg net s m = Inr s'" "sent s' = sent s @ [header_bytes (header m), ?pl]"
    unfolding eq by blast
  have len: "length ?pl = unat (length_f (header m)) * 2"
    using ok eq by (simp add: length_concat_le_bytes_2)
  have dsrc: "decode_source (source (header m))
                = Some (if source (header m) = SOURCE_MIC then Audio else Adc)"
    using src by (auto simp: decode_source_def SOURCE_MIC_def SOURCE_ADC_def)
  have "decode_frame (header_bytes (header m) @ ?pl) = Some (frame_of_msg m)"
    unfolding decode_frame_def header_bytes_fields Let_def
    by (simp add: length_header_bytes dsrc le_word_le_bytes_2 le_word_le_bytes_8 len
        samples_of_concat frame_of_msg_def del: le_word.simps)
  with s' show ?thesis by blast
qed

theorem wire_round_trip_witness:
  "\<exists>s' hdr pl. send_msg all_writes_pass connected_sys adc_frame = Inr s' \<and>
        sent s' = [hdr, pl] \<and>
        decode_frame (hdr @ pl)
          = Some \<lparr>frame_source = Adc, frame_metadata = 0, sampleCount = 2,
                  frame_timestamp = 0x0102030405060708, payload = [0x2ABC, 0x1234]\<rparr>"
  using wire_round_trip [of connected_sys all_writes_pass adc_frame] frame_ok_adc_frame
  by (simp add: connected_sys_def all_writes_pass_def frame_of_msg_def adc_frame_def
      SOURCE_ADC_def SOURCE_MIC_def)

end
